theory Spec2Isabelle
  imports Complex_Main "HOL-Library.Stream"
begin

section \<open>Python values and errors\<close>

text \<open>
  The three scripts \<^verbatim>\<open>encrypt.py\<close>, \<^verbatim>\<open>crypt.py\<close> and \<^verbatim>\<open>dcrypt.py\<close> share the block codec
  (\<^verbatim>\<open>text2int\<close>, \<^verbatim>\<open>int2text\<close>) word for word; \<^verbatim>\<open>maths.py\<close> holds the number theory.
  Python integers are unbounded and are modelled by \<^typ>\<open>int\<close>; \<^verbatim>\<open>//\<close> and \<^verbatim>\<open>%\<close> round
  towards minus infinity, as \<open>div\<close> and \<open>mod\<close> on \<^typ>\<open>int\<close> do. A Python \<^verbatim>\<open>str\<close> is a
  sequence of code points and is modelled by a list of naturals; the \<^verbatim>\<open>bytes\<close> object
  returned by \<^verbatim>\<open>encode\<close> is a list of naturals below 256. Every exception the code can
  raise is a value of \<open>error\<close>, returned as \<open>Inl\<close>.
\<close>

datatype error =
    ValueError
  | ZeroDivisionError
  | UnicodeEncodeError
  | OverflowError
  | Exception string

type_synonym pystr = "nat list"

text \<open>\<^verbatim>\<open>range(start, stop, step)\<close> for a step other than zero (zero raises, at the caller).\<close>

function py_range :: "int \<Rightarrow> int \<Rightarrow> int \<Rightarrow> int list" where
  "py_range start stop step =
     (if (0 < step \<and> start < stop) \<or> (step < 0 \<and> stop < start)
      then start # py_range (start + step) stop step
      else [])"
  by pat_completeness auto
termination
  by (relation "measure (\<lambda>(start, stop, step).
        nat (if 0 < step then stop - start else start - stop))") auto

declare py_range.simps [simp del]

text \<open>\<^verbatim>\<open>s.rstrip("\0")\<close>: drop the NUL code points at the end of the string.\<close>

definition rstrip_nul :: "pystr \<Rightarrow> pystr" where
  "rstrip_nul s = rev (dropWhile (\<lambda>c. c = 0) (rev s))"

text \<open>\<^verbatim>\<open>s.encode("ascii")\<close>: the code points as bytes, or an error when one is above 127.\<close>

definition encode_ascii :: "pystr \<Rightarrow> error + nat list" where
  "encode_ascii s = (if list_all (\<lambda>c. c < 128) s then Inr s else Inl UnicodeEncodeError)"

text \<open>
  \<^verbatim>\<open>chr(i)\<close>: defined on the code points \<open>0 .. 0x10FFFF\<close>; another argument raises a
  \<^verbatim>\<open>ValueError\<close> when it fits a C \<^verbatim>\<open>int\<close>, and an \<^verbatim>\<open>OverflowError\<close> when it does not.
\<close>

definition chr :: "int \<Rightarrow> error + nat" where
  "chr i =
     (if 0 \<le> i \<and> i \<le> 1114111 then Inr (nat i)
      else if - 2147483648 \<le> i \<and> i \<le> 2147483647 then Inl ValueError
      else Inl OverflowError)"

text \<open>
  \<^verbatim>\<open>pow(base, exp, mod)\<close> on integers: the power reduced with Python's \<^verbatim>\<open>%\<close>. A zero modulus
  raises; a negative exponent raises in the Python versions the scripts run on (before 3.8;
  \<^verbatim>\<open>maths.py\<close> imports \<^verbatim>\<open>fractions.gcd\<close>).
\<close>

definition py_pow :: "int \<Rightarrow> int \<Rightarrow> int \<Rightarrow> error + int" where
  "py_pow base ex m =
     (if m = 0 \<or> ex < 0 then Inl ValueError else Inr (base ^ nat ex mod m))"

section \<open>The block codec (text2int, int2text)\<close>

text \<open>
  \<^verbatim>\<open>
  def text2int(msg, block_size=DEFAULT_BLOCK_SIZE):
      msg = msg.rstrip("\0").encode("ascii")
      ints = []
      for block in range(0, len(msg), block_size):
          block_val = 0
          for i in range(block, min(block + block_size, len(msg))):
              block_val += msg[i] * (256 ** (i % block_size))
          ints.append(block_val)
      return ints
  \<close>
  The inner loop is a fold over its index range; the index is always inside the message.
  \<^verbatim>\<open>range\<close> raises a \<^verbatim>\<open>ValueError\<close> for a zero step, after the message has been encoded.
\<close>

definition block_val :: "nat list \<Rightarrow> int \<Rightarrow> int \<Rightarrow> int" where
  "block_val msg block_size block =
     fold (\<lambda>i acc. acc + int (msg ! nat i) * 256 ^ nat (i mod block_size))
          (py_range block (min (block + block_size) (int (length msg))) 1) 0"

definition text2int :: "pystr \<Rightarrow> int \<Rightarrow> error + int list" where
  "text2int msg block_size =
     (case encode_ascii (rstrip_nul msg) of
        Inl e \<Rightarrow> Inl e
      | Inr bytes \<Rightarrow>
          if block_size = 0 then Inl ValueError
          else Inr (map (block_val bytes block_size)
                        (py_range 0 (int (length bytes)) block_size)))"

text \<open>
  \<^verbatim>\<open>
  def int2text(ints, block_size=DEFAULT_BLOCK_SIZE):
      msg = []
      for block_int in ints:
          block_msg = []
          for i in range(block_size - 1, -1, -1):
                  char = block_int // (256 ** i)
                  block_int %= (256 ** i)
                  block_msg.append(chr(char))
          msg.extend(block_msg[::-1])
      return "".join(msg).rstrip("\0")
  \<close>
  \<open>int2text_block\<close> is the inner loop over the indices still to visit, \<open>int2text_loop\<close> the
  outer loop over the blocks still to decode.
\<close>

fun int2text_block :: "int list \<Rightarrow> int \<Rightarrow> pystr \<Rightarrow> error + pystr" where
  "int2text_block [] block_int block_msg = Inr block_msg"
| "int2text_block (i # is) block_int block_msg =
     (case chr (block_int div 256 ^ nat i) of
        Inl e \<Rightarrow> Inl e
      | Inr c \<Rightarrow> int2text_block is (block_int mod 256 ^ nat i) (block_msg @ [c]))"

fun int2text_loop :: "int list \<Rightarrow> int \<Rightarrow> pystr \<Rightarrow> error + pystr" where
  "int2text_loop [] block_size msg = Inr msg"
| "int2text_loop (block_int # ints) block_size msg =
     (case int2text_block (py_range (block_size - 1) (- 1) (- 1)) block_int [] of
        Inl e \<Rightarrow> Inl e
      | Inr block_msg \<Rightarrow> int2text_loop ints block_size (msg @ rev block_msg))"

definition int2text :: "int list \<Rightarrow> int \<Rightarrow> error + pystr" where
  "int2text ints block_size =
     (case int2text_loop ints block_size [] of
        Inl e \<Rightarrow> Inl e
      | Inr msg \<Rightarrow> Inr (rstrip_nul msg))"

section \<open>Specification-level helpers for the codec\<close>

text \<open>
  \<open>le_val\<close> is the little-endian base-256 value of a byte window and \<open>chunks\<close> cuts a
  list into windows of a given width; the proofs show that the loops of \<^verbatim>\<open>text2int\<close>
  compute exactly these.
\<close>

fun le_val :: "nat list \<Rightarrow> int" where
  "le_val [] = 0"
| "le_val (c # cs) = int c + 256 * le_val cs"

function chunks :: "nat \<Rightarrow> 'a list \<Rightarrow> 'a list list" where
  "chunks n xs = (if xs = [] \<or> n = 0 then [] else take n xs # chunks n (drop n xs))"
  by pat_completeness auto
termination
  by (relation "measure (\<lambda>(n, xs). length xs)") auto

declare chunks.simps [simp del]


section \<open>The modular inverse (maths.py)\<close>

text \<open>
  \<^verbatim>\<open>
  def multinv(mod, val):
      x, lastx = 0, 1
      a, b = mod, val
      while b:
          a, q, b = b, a // b, a % b
          x, lastx = lastx - q * x, x
      result = (1 - lastx * mod) // val
      return result + mod if result < 0 else result
  \<close>
  The \<^verbatim>\<open>while\<close> loop is a partial function on the loop state \<open>(a, b, x, lastx)\<close>: \<open>None\<close>
  stands for a loop that never ends, so that termination is a theorem and not a property
  of the model. The final division raises \<^verbatim>\<open>ZeroDivisionError\<close> when \<^verbatim>\<open>val\<close> is zero.
\<close>

partial_function (option) multinv_loop ::
  "int \<Rightarrow> int \<Rightarrow> int \<Rightarrow> int \<Rightarrow> (int \<times> int \<times> int \<times> int) option" where
  "multinv_loop a b x lastx =
     (if b \<noteq> 0
      then multinv_loop b (a mod b) (lastx - (a div b) * x) x
      else Some (a, b, x, lastx))"

definition multinv :: "int \<Rightarrow> int \<Rightarrow> (error + int) option" where
  "multinv modulus val =
     (case multinv_loop modulus val 0 1 of
        None \<Rightarrow> None
      | Some (a, b, x, lastx) \<Rightarrow>
          if val = 0 then Some (Inl ZeroDivisionError)
          else let result = (1 - lastx * modulus) div val
               in Some (Inr (if result < 0 then result + modulus else result)))"


section \<open>The cipher (crypt.py, dcrypt.py)\<close>

text \<open>
  \<^verbatim>\<open>
  def encrypt(msg, key, block_size=BLOCK_SIZE):          # crypt.py
      n, e = key
      blocks = text2int(msg, block_size)
      return [pow(block, e, n) for block in blocks]

  def decrypt(encrypted_blocks, key, block_size=BLOCK_SIZE):
      n, d = key
      decrypted_blocks = [pow(block, d, n) for block in encrypted_blocks]
      return int2text(decrypted_blocks, block_size)

  def encrypt(msg, key, block_size=DEFAULT_BLOCK_SIZE):   # dcrypt.py
      n, e, size = key
      if size <= block_size * 8:
          raise Exception("Key bits must be larger than block bits.")
      blocks = text2int(msg, block_size)
      return [pow(block, e, n) for block in blocks]
  \<close>
  \<open>pow_blocks\<close> is the list comprehension: it stops at the first \<^verbatim>\<open>pow\<close> that raises.
  \<open>encrypt\<close> and \<open>decrypt\<close> are those of \<^verbatim>\<open>crypt.py\<close>, whose keys are pairs;
  \<open>dcrypt_encrypt\<close> and \<open>dcrypt_decrypt\<close> are those of \<^verbatim>\<open>dcrypt.py\<close>, whose keys carry the
  declared bit size as a third component.
\<close>

fun pow_blocks :: "int list \<Rightarrow> int \<Rightarrow> int \<Rightarrow> error + int list" where
  "pow_blocks [] ex n = Inr []"
| "pow_blocks (block # blocks) ex n =
     (case py_pow block ex n of
        Inl err \<Rightarrow> Inl err
      | Inr v \<Rightarrow>
          (case pow_blocks blocks ex n of
             Inl err \<Rightarrow> Inl err
           | Inr vs \<Rightarrow> Inr (v # vs)))"

definition encrypt :: "pystr \<Rightarrow> int \<times> int \<Rightarrow> int \<Rightarrow> error + int list" where
  "encrypt msg key block_size =
     (case key of (n, e) \<Rightarrow>
        (case text2int msg block_size of
           Inl err \<Rightarrow> Inl err
         | Inr blocks \<Rightarrow> pow_blocks blocks e n))"

definition decrypt :: "int list \<Rightarrow> int \<times> int \<Rightarrow> int \<Rightarrow> error + pystr" where
  "decrypt encrypted_blocks key block_size =
     (case key of (n, d) \<Rightarrow>
        (case pow_blocks encrypted_blocks d n of
           Inl err \<Rightarrow> Inl err
         | Inr decrypted_blocks \<Rightarrow> int2text decrypted_blocks block_size))"

definition dcrypt_encrypt :: "pystr \<Rightarrow> int \<times> int \<times> int \<Rightarrow> int \<Rightarrow> error + int list" where
  "dcrypt_encrypt msg key block_size =
     (case key of (n, e, size') \<Rightarrow>
        if size' \<le> block_size * 8
        then Inl (Exception ''Key bits must be larger than block bits.'')
        else (case text2int msg block_size of
                Inl err \<Rightarrow> Inl err
              | Inr blocks \<Rightarrow> pow_blocks blocks e n))"

definition dcrypt_decrypt :: "int list \<Rightarrow> int \<times> int \<times> int \<Rightarrow> int \<Rightarrow> error + pystr" where
  "dcrypt_decrypt encrypted_blocks key block_size =
     (case key of (n, d, _) \<Rightarrow>
        (case pow_blocks encrypted_blocks d n of
           Inl err \<Rightarrow> Inl err
         | Inr decrypted_blocks \<Rightarrow> int2text decrypted_blocks block_size))"


section \<open>Number theory used by the specification\<close>

text \<open>
  The claims speak of primes, which the code never decides exactly. \<open>prime_nat\<close> is the
  mathematical notion. \<open>trial_division\<close> and \<open>modpow\<close> (square and multiply) are evaluation
  aids: they are proved equal to the notions they compute and let the kernel evaluate
  primality certificates and \<^verbatim>\<open>pow(b, e, n)\<close> on the numbers of the source.
\<close>

definition prime_nat :: "nat \<Rightarrow> bool" where
  "prime_nat p \<longleftrightarrow> 1 < p \<and> (\<forall>m. m dvd p \<longrightarrow> m = 1 \<or> m = p)"

function trial_division :: "nat \<Rightarrow> nat \<Rightarrow> bool" where
  "trial_division n i =
     (if n < i * i \<or> i = 0 then True
      else if n mod i = 0 then False
      else trial_division n (i + 1))"
  by pat_completeness auto
termination
proof (relation "measure (\<lambda>(n, i). n + 1 - i)")
  show "wf (measure (\<lambda>(n, i). n + 1 - i))" by simp
next
  fix n i :: nat
  assume "\<not> (n < i * i \<or> i = 0)"
  then have "i * i \<le> n" "0 < i" by simp_all
  then have "i \<le> n" by (metis le_trans le_square)
  then show "((n, i + 1), (n, i)) \<in> measure (\<lambda>(n, i). n + 1 - i)" by simp
qed

declare trial_division.simps [simp del]

function modpow :: "int \<Rightarrow> nat \<Rightarrow> int \<Rightarrow> int" where
  "modpow b k n =
     (if k = 0 then 1 mod n
      else if even k then modpow (b * b mod n) (k div 2) n
      else b * modpow (b * b mod n) (k div 2) n mod n)"
  by pat_completeness auto
termination
  by (relation "measure (\<lambda>(b, k, n). k)") auto

declare modpow.simps [simp del]


section \<open>Randomness, the sieve and the primality tests (maths.py)\<close>

text \<open>
  \<^verbatim>\<open>random.randrange(start, stop)\<close> returns some integer of \<open>[start, stop)\<close> and raises a
  \<^verbatim>\<open>ValueError\<close> when the range is empty. The source of randomness is an infinite stream of
  integers threaded through every function that draws: a draw consumes the head of the
  stream and reduces it into the range, so that every stream is a possible run and every
  outcome of \<^verbatim>\<open>randrange\<close> is the draw of some stream.
\<close>

definition randrange :: "int \<Rightarrow> int \<Rightarrow> int stream \<Rightarrow> error + int \<times> int stream" where
  "randrange start stop rs =
     (if stop \<le> start then Inl ValueError
      else Inr (start + shd rs mod (stop - start), stl rs))"

text \<open>
  \<^verbatim>\<open>
  def prime_sieve(size):
      sieve = [True] * size
      sieve[0:2] = [False, False]
      for i in range(2, int(math.sqrt(size)) + 1):
          pointer = i * 2
          while pointer < size:
              sieve[pointer] = False
              pointer += i
      return [i for i in range(size) if sieve[i]]

  FIRST_FEW_PRIMES = prime_sieve(1000)
  \<close>
  \<^verbatim>\<open>int(math.sqrt(size))\<close> is the integer square root \<open>isqrt\<close> (the float is exact far beyond
  the one size the module uses). The inner \<^verbatim>\<open>while\<close> loop is \<open>mark_multiples\<close>; its step
  \<open>i\<close> comes from \<^verbatim>\<open>range(2, ...)\<close> and is positive, which the guard \<open>0 < i\<close> records to
  make the recursion well founded.
\<close>

fun isqrt :: "nat \<Rightarrow> nat" where
  "isqrt n =
     (if n = 0 then 0
      else (let r = 2 * isqrt (n div 4) in if (r + 1) * (r + 1) \<le> n then r + 1 else r))"

declare isqrt.simps [simp del]

function mark_multiples :: "bool list \<Rightarrow> nat \<Rightarrow> nat \<Rightarrow> nat \<Rightarrow> bool list" where
  "mark_multiples sieve pointer i sz =
     (if pointer < sz \<and> 0 < i
      then mark_multiples (sieve[pointer := False]) (pointer + i) i sz
      else sieve)"
  by pat_completeness auto
termination
  by (relation "measure (\<lambda>(sieve, pointer, i, sz). sz - pointer)") auto

declare mark_multiples.simps [simp del]

definition prime_sieve :: "nat \<Rightarrow> int list" where
  "prime_sieve sz =
     (let sieve0 = [False, False] @ drop 2 (replicate sz True);
          sieve = fold (\<lambda>i s. mark_multiples s (i * 2) i sz) [2..<isqrt sz + 1] sieve0
      in map int (filter (\<lambda>i. sieve ! i) [0..<sz]))"

definition FIRST_FEW_PRIMES :: "int list" where
  "FIRST_FEW_PRIMES = prime_sieve 1000"

text \<open>
  \<^verbatim>\<open>
  def rabin_miller(n, k=5):
      d = n-1
      r = 0
      while d % 2 == 0:
          d = d // 2
          r +=1
      for attempts in range(k):
          a = random.randrange(2, n-1)
          x = pow(a, d, n)
          if x != 1:
              i = 0
              while x != (n-1):
                  if i == (r-1):
                      return False
                  else:
                      x = (x ** 2) % n
                      i += 1
      return True
  \<close>
  Both \<^verbatim>\<open>while\<close> loops can run forever (the first on \<open>n = 1\<close>, the second when \<open>r = 0\<close>), so
  they are partial functions with \<open>None\<close> for a run that never returns.
  \<open>rabin_miller_factor\<close> is the first loop on \<open>(d, r)\<close>; \<open>rabin_miller_witness\<close> is the inner
  loop on \<open>(x, i)\<close>, returning \<open>False\<close> for \<^verbatim>\<open>return False\<close> and \<open>True\<close> when the loop is left;
  \<open>rabin_miller_rounds\<close> is the \<^verbatim>\<open>for\<close> loop over the attempts still to run.
\<close>

partial_function (option) rabin_miller_factor :: "int \<Rightarrow> int \<Rightarrow> (int \<times> int) option" where
  "rabin_miller_factor d r =
     (if d mod 2 = 0 then rabin_miller_factor (d div 2) (r + 1) else Some (d, r))"

partial_function (option) rabin_miller_witness :: "int \<Rightarrow> int \<Rightarrow> int \<Rightarrow> int \<Rightarrow> bool option" where
  "rabin_miller_witness n r x i =
     (if x \<noteq> n - 1
      then (if i = r - 1 then Some False
            else rabin_miller_witness n r (x\<^sup>2 mod n) (i + 1))
      else Some True)"

fun rabin_miller_rounds ::
  "nat \<Rightarrow> int \<Rightarrow> int \<Rightarrow> int \<Rightarrow> int stream \<Rightarrow> (error + bool \<times> int stream) option" where
  "rabin_miller_rounds 0 n d r rs = Some (Inr (True, rs))"
| "rabin_miller_rounds (Suc attempts) n d r rs =
     (case randrange 2 (n - 1) rs of
        Inl e \<Rightarrow> Some (Inl e)
      | Inr (a, rs') \<Rightarrow>
          (case py_pow a d n of
             Inl e \<Rightarrow> Some (Inl e)
           | Inr x \<Rightarrow>
               if x \<noteq> 1
               then (case rabin_miller_witness n r x 0 of
                       None \<Rightarrow> None
                     | Some False \<Rightarrow> Some (Inr (False, rs'))
                     | Some True \<Rightarrow> rabin_miller_rounds attempts n d r rs')
               else rabin_miller_rounds attempts n d r rs'))"

definition rabin_miller :: "int \<Rightarrow> int \<Rightarrow> int stream \<Rightarrow> (error + bool \<times> int stream) option" where
  "rabin_miller n k rs =
     (case rabin_miller_factor (n - 1) 0 of
        None \<Rightarrow> None
      | Some (d, r) \<Rightarrow> rabin_miller_rounds (nat k) n d r rs)"

text \<open>
  \<^verbatim>\<open>
  def is_prime(n):
      if n < 2:
          return False
      if n in FIRST_FEW_PRIMES:
          return True
      for prime in FIRST_FEW_PRIMES:
          if n % prime == 0:
              return False
      return rabin_miller(n)
  \<close>
\<close>

definition is_prime :: "int \<Rightarrow> int stream \<Rightarrow> (error + bool \<times> int stream) option" where
  "is_prime n rs =
     (if n < 2 then Some (Inr (False, rs))
      else if n \<in> set FIRST_FEW_PRIMES then Some (Inr (True, rs))
      else if list_ex (\<lambda>prime. n mod prime = 0) FIRST_FEW_PRIMES then Some (Inr (False, rs))
      else rabin_miller n 5 rs)"


section \<open>Key generation (maths.py, crypt.py)\<close>

text \<open>
  \<^verbatim>\<open>
  def find_random_prime(start, stop):
      while True:
          n = random.randrange(start, stop)
          if is_prime(n):
              return n

  def find_random_coprime(n, start, stop):
      while True:
          e = random.randrange(start, stop)
          if gcd(e, n) == 1:
              return e

  def get_key_prime(size=1024):
      return find_random_prime(2**(size-1), 2**size)

  def get_key_coprime(n, size):
      return find_random_coprime(n, DEFAULT_EXP, 2**size)

  def generate_key_pair(key_size, use_default_exponent=True):
      p, q = 0, 0
      while p == q:
          p = get_key_prime(key_size)
          q = get_key_prime(key_size)
      n = p * q
      # create e that is coprime to (p-1)*(q-1)
      x = (p-1)*(q-1)
      if use_default_exponent:
          e = DEFAULT_EXP
      else:
          e = get_key_coprime(x, key_size)
      # create d that is multiplicative inverse of e mod x
      d = multinv(x, e)
      public_key = n, e
      private_key = n, d
      return public_key, private_key
  \<close>
  The search loops may run forever and are partial functions. \<open>fractions_gcd\<close> is
  \<^verbatim>\<open>fractions.gcd\<close> (\<^verbatim>\<open>while b: a, b = b, a%b\<close>). A power of two with a negative exponent is
  a float that is not an integer, which \<^verbatim>\<open>randrange\<close> refuses with a \<^verbatim>\<open>ValueError\<close>.
  \<open>key_primes\<close> is the \<^verbatim>\<open>while p == q\<close> loop on \<open>(p, q)\<close>; it returns the two numbers the
  key is built from. \<open>generate_key_pair\<close> is the version of \<^verbatim>\<open>crypt.py\<close>, whose keys are
  pairs; \<open>bit_length\<close> is the number of binary digits of a natural number, the bit size of a
  modulus.
\<close>

function fractions_gcd :: "int \<Rightarrow> int \<Rightarrow> int" where
  "fractions_gcd a b = (if b \<noteq> 0 then fractions_gcd b (a mod b) else a)"
  by pat_completeness auto
termination
  by (relation "measure (\<lambda>(a, b). nat \<bar>b\<bar>)") (auto intro: abs_mod_less)

declare fractions_gcd.simps [simp del]

partial_function (option) find_random_prime ::
  "int \<Rightarrow> int \<Rightarrow> int stream \<Rightarrow> (error + int \<times> int stream) option" where
  "find_random_prime start stop rs =
     (case randrange start stop rs of
        Inl e \<Rightarrow> Some (Inl e)
      | Inr (n, rs1) \<Rightarrow>
          (case is_prime n rs1 of
             None \<Rightarrow> None
           | Some (Inl e) \<Rightarrow> Some (Inl e)
           | Some (Inr (b, rs2)) \<Rightarrow>
               if b then Some (Inr (n, rs2)) else find_random_prime start stop rs2))"

partial_function (option) find_random_coprime ::
  "int \<Rightarrow> int \<Rightarrow> int \<Rightarrow> int stream \<Rightarrow> (error + int \<times> int stream) option" where
  "find_random_coprime n start stop rs =
     (case randrange start stop rs of
        Inl err \<Rightarrow> Some (Inl err)
      | Inr (e, rs1) \<Rightarrow>
          if fractions_gcd e n = 1 then Some (Inr (e, rs1))
          else find_random_coprime n start stop rs1)"

definition DEFAULT_EXP :: int where
  "DEFAULT_EXP = 65537"

definition get_key_prime :: "int \<Rightarrow> int stream \<Rightarrow> (error + int \<times> int stream) option" where
  "get_key_prime sz rs =
     (if sz < 1 then Some (Inl ValueError)
      else find_random_prime (2 ^ nat (sz - 1)) (2 ^ nat sz) rs)"

definition get_key_coprime ::
  "int \<Rightarrow> int \<Rightarrow> int stream \<Rightarrow> (error + int \<times> int stream) option" where
  "get_key_coprime n sz rs =
     (if sz < 0 then Some (Inl ValueError)
      else find_random_coprime n DEFAULT_EXP (2 ^ nat sz) rs)"

partial_function (option) key_primes ::
  "int \<Rightarrow> int \<Rightarrow> int \<Rightarrow> int stream \<Rightarrow> (error + (int \<times> int) \<times> int stream) option" where
  "key_primes p q key_size rs =
     (if p = q
      then (case get_key_prime key_size rs of
              None \<Rightarrow> None
            | Some (Inl e) \<Rightarrow> Some (Inl e)
            | Some (Inr (p', rs1)) \<Rightarrow>
                (case get_key_prime key_size rs1 of
                   None \<Rightarrow> None
                 | Some (Inl e) \<Rightarrow> Some (Inl e)
                 | Some (Inr (q', rs2)) \<Rightarrow> key_primes p' q' key_size rs2))
      else Some (Inr ((p, q), rs)))"

definition generate_key_pair ::
  "int \<Rightarrow> bool \<Rightarrow> int stream
   \<Rightarrow> (error + ((int \<times> int) \<times> (int \<times> int)) \<times> int stream) option" where
  "generate_key_pair key_size use_default_exponent rs =
     (case key_primes 0 0 key_size rs of
        None \<Rightarrow> None
      | Some (Inl err) \<Rightarrow> Some (Inl err)
      | Some (Inr ((p, q), rs1)) \<Rightarrow>
          (let n = p * q; x = (p - 1) * (q - 1) in
           (case (if use_default_exponent then Some (Inr (DEFAULT_EXP, rs1))
                  else get_key_coprime x key_size rs1) of
              None \<Rightarrow> None
            | Some (Inl err) \<Rightarrow> Some (Inl err)
            | Some (Inr (e, rs2)) \<Rightarrow>
                (case multinv x e of
                   None \<Rightarrow> None
                 | Some (Inl err) \<Rightarrow> Some (Inl err)
                 | Some (Inr d) \<Rightarrow> Some (Inr (((n, e), (n, d)), rs2))))))"

fun bit_length :: "nat \<Rightarrow> nat" where
  "bit_length n = (if n = 0 then 0 else Suc (bit_length (n div 2)))"

declare bit_length.simps [simp del]


section \<open>The codec: encoding, decoding and the round trip\<close>

lemma py_range_pos:
  "0 < step \<Longrightarrow> py_range start stop step =
     (if start < stop then start # py_range (start + step) stop step else [])"
  by (simp add: py_range.simps [of start stop step])

lemma py_range_neg:
  "step < 0 \<Longrightarrow> py_range start stop step =
     (if stop < start then start # py_range (start + step) stop step else [])"
  by (simp add: py_range.simps [of start stop step])

lemma py_range_one: "py_range (int m) (int n) 1 = map int [m..<n]"
proof (induction "n - m" arbitrary: m)
  case 0
  then show ?case by (simp add: py_range_pos)
next
  case (Suc d)
  then have lt: "m < n" and d: "d = n - Suc m" by auto
  have "py_range (int m) (int n) 1 = int m # py_range (int (Suc m)) (int n) 1"
    using lt by (simp add: py_range_pos [of 1 "int m"] add.commute)
  also have "\<dots> = int m # map int [Suc m..<n]"
    using Suc.hyps(1) [OF d] by simp
  also have "\<dots> = map int [m..<n]"
    using lt by (simp add: upt_conv_Cons)
  finally show ?case .
qed

lemma py_range_down: "py_range (int n - 1) (- 1) (- 1) = map int (rev [0..<n])"
proof (induction n)
  case 0
  show ?case by (simp add: py_range_neg)
next
  case (Suc n)
  have "py_range (int (Suc n) - 1) (- 1) (- 1) = int n # py_range (int n - 1) (- 1) (- 1)"
    by (simp add: py_range_neg [of "- 1" "int n"])
  then show ?case using Suc by simp
qed

lemma py_range_blocks:
  "0 < b \<Longrightarrow> py_range (int s) (int L) (int b) =
     (if s < L then int s # py_range (int (s + b)) (int L) (int b) else [])"
  by (simp add: py_range_pos [of "int b" "int s"])

lemma le_val_nonneg: "0 \<le> le_val cs"
  by (induction cs) auto

lemma le_val_bound: "list_all (\<lambda>c. c < 256) cs \<Longrightarrow> le_val cs < 256 ^ length cs"
  by (induction cs) auto

lemma le_val_snoc: "le_val (cs @ [c]) = le_val cs + 256 ^ length cs * int c"
  by (induction cs) (auto simp: algebra_simps)

lemma fold_block:
  assumes "b dvd s" "l \<le> b" "s + l \<le> length msg" "j \<le> l"
  shows "fold (\<lambda>i acc. acc + int (msg ! i) * 256 ^ (i mod b)) [s + j..<s + l] acc
         = acc + 256 ^ j * le_val (drop j (take l (drop s msg)))"
  using assms(4)
proof (induction "l - j" arbitrary: j acc)
  case 0
  then show ?case by simp
next
  case (Suc d)
  then have lt: "j < l" and d: "d = l - Suc j" by auto
  have modj: "(s + j) mod b = j"
  proof -
    from assms(1) obtain q where "s = b * q" ..
    then show ?thesis using assms(2) lt by simp
  qed
  have "j < length (take l (drop s msg))"
    using lt assms(3) by simp
  then have "drop j (take l (drop s msg))
             = take l (drop s msg) ! j # drop (Suc j) (take l (drop s msg))"
    by (rule Cons_nth_drop_Suc [symmetric])
  moreover have "take l (drop s msg) ! j = msg ! (s + j)"
    using lt assms(3) by simp
  ultimately have dr: "drop j (take l (drop s msg))
                       = msg ! (s + j) # drop (Suc j) (take l (drop s msg))"
    by simp
  have up: "[s + j..<s + l] = (s + j) # [s + Suc j..<s + l]"
    using lt by (simp add: upt_conv_Cons)
  have "fold (\<lambda>i acc. acc + int (msg ! i) * 256 ^ (i mod b)) [s + j..<s + l] acc
        = fold (\<lambda>i acc. acc + int (msg ! i) * 256 ^ (i mod b)) [s + Suc j..<s + l]
            (acc + int (msg ! (s + j)) * 256 ^ j)"
    unfolding up by (simp add: modj)
  also have "\<dots> = acc + int (msg ! (s + j)) * 256 ^ j
                   + 256 ^ Suc j * le_val (drop (Suc j) (take l (drop s msg)))"
    using Suc.hyps(1) [OF d] lt by simp
  also have "\<dots> = acc + 256 ^ j * le_val (drop j (take l (drop s msg)))"
    unfolding dr by (simp add: algebra_simps)
  finally show ?case .
qed

lemma block_val_chunk:
  assumes "0 < b" "s < length msg" "b dvd s"
  shows "block_val msg (int b) (int s) = le_val (take b (drop s msg))"
proof -
  define l where "l = min b (length msg - s)"
  have m: "min (int s + int b) (int (length msg)) = int (s + l)"
    using assms(2) by (auto simp: l_def min_def)
  have f: "(\<lambda>i acc. acc + int (msg ! nat i) * 256 ^ nat (i mod int b)) \<circ> int
           = (\<lambda>i acc. acc + int (msg ! i) * 256 ^ (i mod b))"
    by (auto simp: fun_eq_iff nat_mod_distrib simp flip: zmod_int)
  have "block_val msg (int b) (int s)
        = fold (\<lambda>i acc. acc + int (msg ! i) * 256 ^ (i mod b)) [s + 0..<s + l] 0"
    by (simp add: block_val_def m py_range_one fold_map f del: of_nat_add)
  also have "\<dots> = le_val (take l (drop s msg))"
    using fold_block [of b s l msg 0 0] assms by (simp add: l_def)
  also have "take l (drop s msg) = take b (drop s msg)"
    by (simp add: l_def min_def)
  finally show ?thesis .
qed

lemma text2int_blocks_from:
  assumes "0 < b"
  shows "map (block_val msg (int b)) (py_range (int (k * b)) (int (length msg)) (int b))
         = map le_val (chunks b (drop (k * b) msg))"
proof (induction "length msg - k * b" arbitrary: k rule: less_induct)
  case less
  show ?case
  proof (cases "k * b < length msg")
    case False
    then show ?thesis
      using assms py_range_blocks [of b "k * b" "length msg"]
      by (simp add: chunks.simps [of b "[]"])
  next
    case True
    have lt: "length msg - Suc k * b < length msg - k * b"
      using True assms by simp
    have "map (block_val msg (int b)) (py_range (int (k * b)) (int (length msg)) (int b))
          = block_val msg (int b) (int (k * b))
            # map (block_val msg (int b)) (py_range (int (Suc k * b)) (int (length msg)) (int b))"
      using True assms py_range_blocks [of b "k * b" "length msg"]
      by (simp add: add.commute)
    also have "\<dots> = le_val (take b (drop (k * b) msg))
                     # map le_val (chunks b (drop (Suc k * b) msg))"
      using less [OF lt] block_val_chunk [OF assms True] by simp
    also have "\<dots> = map le_val (chunks b (drop (k * b) msg))"
      using True assms
      by (simp add: chunks.simps [of b "drop (k * b) msg"] add.commute)
    finally show ?thesis .
  qed
qed

lemma text2int_chunks:
  assumes "list_all (\<lambda>c. c < 128) (rstrip_nul m)" "0 < b"
  shows "text2int m (int b) = Inr (map le_val (chunks b (rstrip_nul m)))"
  using assms text2int_blocks_from [of b "rstrip_nul m" 0]
  by (simp add: text2int_def encode_ascii_def)


lemma chunks_Nil: "chunks b [] = []"
  by (simp add: chunks.simps [of b "[]"])

lemma chunks_Cons:
  "0 < b \<Longrightarrow> xs \<noteq> [] \<Longrightarrow> chunks b xs = take b xs # chunks b (drop b xs)"
  by (simp add: chunks.simps [of b xs])

lemma chr_byte: "c < 256 \<Longrightarrow> chr (int c) = Inr c"
  by (simp add: chr_def)

lemma int2text_block_le_val:
  assumes "list_all (\<lambda>c. c < 256) cs" "length cs \<le> n"
  shows "int2text_block (map int (rev [0..<n])) (le_val cs) acc
         = Inr (acc @ rev (cs @ replicate (n - length cs) 0))"
  using assms
proof (induction n arbitrary: cs acc)
  case 0
  then show ?case by simp
next
  case (Suc n)
  show ?case
  proof (cases "length cs = Suc n")
    case True
    then obtain cs' c where cs: "cs = cs' @ [c]" and len: "length cs' = n"
      by (metis length_Suc_conv_rev)
    from Suc.prems(1) cs have c: "c < 256" and all: "list_all (\<lambda>c. c < 256) cs'"
      by simp_all
    have bnd: "0 \<le> le_val cs'" "le_val cs' < 256 ^ n"
      using le_val_nonneg [of cs'] le_val_bound [OF all] len by simp_all
    have v: "le_val cs = le_val cs' + 256 ^ n * int c"
      by (simp add: cs le_val_snoc len)
    have d: "le_val cs div 256 ^ n = int c"
      using bnd by (simp add: v)
    have r: "le_val cs mod 256 ^ n = le_val cs'"
      using bnd by (simp add: v)
    have "int2text_block (map int (rev [0..<Suc n])) (le_val cs) acc
          = int2text_block (map int (rev [0..<n])) (le_val cs') (acc @ [c])"
      using c by (simp add: d r chr_byte)
    then show ?thesis
      using Suc.IH [OF all, of "acc @ [c]"] len by (simp add: cs)
  next
    case False
    with Suc.prems(2) have le: "length cs \<le> n" by simp
    have "le_val cs < 256 ^ length cs"
      by (rule le_val_bound [OF Suc.prems(1)])
    also have "(256::int) ^ length cs \<le> 256 ^ n"
      using le by (simp add: power_increasing)
    finally have bnd: "le_val cs < 256 ^ n" .
    have d: "le_val cs div 256 ^ n = 0"
      using bnd le_val_nonneg [of cs] by simp
    have r: "le_val cs mod 256 ^ n = le_val cs"
      using bnd le_val_nonneg [of cs] by simp
    have rep: "replicate (Suc n - length cs) (0::nat) = replicate (n - length cs) 0 @ [0]"
      using le by (simp add: Suc_diff_le replicate_append_same)
    have "int2text_block (map int (rev [0..<Suc n])) (le_val cs) acc
          = int2text_block (map int (rev [0..<n])) (le_val cs) (acc @ [0])"
      by (simp add: d r chr_def)
    then show ?thesis
      using Suc.IH [OF Suc.prems(1) le, of "acc @ [0]"] by (simp add: rep)
  qed
qed

lemma int2text_loop_chunks:
  assumes "0 < b" "list_all (\<lambda>c. c < 256) bytes"
  shows "\<exists>k. int2text_loop (map le_val (chunks b bytes)) (int b) acc
              = Inr (acc @ bytes @ replicate k 0)"
  using assms(2)
proof (induction "length bytes" arbitrary: bytes acc rule: less_induct)
  case less
  show ?case
  proof (cases "bytes = []")
    case True
    then show ?thesis by (simp add: chunks_Nil)
  next
    case False
    define chunk where "chunk = take b bytes"
    define rest where "rest = drop b bytes"
    have split: "bytes = chunk @ rest"
      by (simp add: chunk_def rest_def)
    have call: "list_all (\<lambda>c. c < 256) chunk" and rall: "list_all (\<lambda>c. c < 256) rest"
      using less.prems by (auto simp: chunk_def rest_def list_all_iff dest: in_set_takeD in_set_dropD)
    have clen: "length chunk \<le> b"
      by (simp add: chunk_def)
    have rlen: "length rest < length bytes"
      using False assms(1) by (simp add: rest_def)
    have blk: "int2text_block (py_range (int b - 1) (- 1) (- 1)) (le_val chunk) []
               = Inr (rev (chunk @ replicate (b - length chunk) 0))"
      using int2text_block_le_val [OF call clen, of "[]"] by (simp add: py_range_down)
    from less.hyps [OF rlen rall, of "acc @ chunk @ replicate (b - length chunk) 0"]
    obtain k where k: "int2text_loop (map le_val (chunks b rest)) (int b)
                         (acc @ chunk @ replicate (b - length chunk) 0)
                       = Inr ((acc @ chunk @ replicate (b - length chunk) 0) @ rest @ replicate k 0)"
      by blast
    have step: "int2text_loop (map le_val (chunks b bytes)) (int b) acc
                = Inr ((acc @ chunk @ replicate (b - length chunk) 0) @ rest @ replicate k 0)"
      using k blk chunks_Cons [OF assms(1) False]
      by (simp add: chunk_def [symmetric] rest_def [symmetric])
    show ?thesis
    proof (cases "length chunk = b")
      case True
      have "int2text_loop (map le_val (chunks b bytes)) (int b) acc
            = Inr (acc @ bytes @ replicate k 0)"
        unfolding step using True split by simp
      then show ?thesis ..
    next
      case False
      then have "rest = []"
        by (simp add: chunk_def rest_def)
      then have "int2text_loop (map le_val (chunks b bytes)) (int b) acc
                 = Inr (acc @ bytes @ replicate (b - length chunk + k) 0)"
        unfolding step using split by (simp add: replicate_add)
      then show ?thesis ..
    qed
  qed
qed

lemma rstrip_nul_padding: "rstrip_nul (xs @ replicate k 0) = rstrip_nul xs"
proof -
  have "dropWhile (\<lambda>c. c = 0) (replicate k (0::nat) @ rev xs) = dropWhile (\<lambda>c. c = 0) (rev xs)"
    by (rule dropWhile_append2) simp
  then show ?thesis by (simp add: rstrip_nul_def)
qed

lemma rstrip_nul_id: "m = [] \<or> last m \<noteq> 0 \<Longrightarrow> rstrip_nul m = m"
proof (cases m rule: rev_cases)
  case Nil
  then show ?thesis by (simp add: rstrip_nul_def)
next
  case (snoc ys y)
  assume "m = [] \<or> last m \<noteq> 0"
  with snoc show ?thesis by (simp add: rstrip_nul_def)
qed

lemma rstrip_nul_ascii:
  "list_all (\<lambda>c. c < 128) m \<Longrightarrow> list_all (\<lambda>c. c < 128) (rstrip_nul m)"
proof -
  have "set (rstrip_nul m) \<subseteq> set m"
    by (metis rstrip_nul_def set_rev set_dropWhileD subsetI)
  then show "list_all (\<lambda>c. c < 128) m \<Longrightarrow> list_all (\<lambda>c. c < 128) (rstrip_nul m)"
    by (auto simp: list_all_iff)
qed

lemma ascii_bytes: "list_all (\<lambda>c. c < 128) m \<Longrightarrow> list_all (\<lambda>c. c < (256::nat)) m"
  by (auto simp: list_all_iff)

lemma ceil_div_step:
  assumes "0 < (b::nat)" "0 < L"
  shows "Suc ((L - b + b - 1) div b) = (L + b - 1) div b"
proof -
  have "L + b - 1 = (L - 1) + b" using assms(2) by arith
  then have rhs: "(L + b - 1) div b = Suc ((L - 1) div b)"
    using assms(1) by (simp only: div_add_self2)
  show ?thesis
  proof (cases "b \<le> L")
    case True
    then have "L - b + b - 1 = L - 1" by arith
    then show ?thesis by (simp only: rhs)
  next
    case False
    then have "L - b + b - 1 = b - 1" by arith
    moreover have "(b - 1) div b = 0" using assms(1) by (intro div_less) arith
    moreover have "(L - 1) div b = 0" using False by (intro div_less) arith
    ultimately show ?thesis by (simp only: rhs)
  qed
qed

lemma length_chunks: "0 < b \<Longrightarrow> length (chunks b xs) = (length xs + b - 1) div b"
proof (induction "length xs" arbitrary: xs rule: less_induct)
  case less
  show ?case
  proof (cases "xs = []")
    case True
    have "(b - 1) div b = 0" using less.prems by (intro div_less) arith
    then show ?thesis using True by (simp add: chunks_Nil)
  next
    case False
    have lt: "length (drop b xs) < length xs"
      using False less.prems by simp
    have ih: "length (chunks b (drop b xs)) = (length xs - b + b - 1) div b"
      using less.hyps [OF lt less.prems] by (simp only: length_drop)
    have "length (chunks b xs) = Suc (length (chunks b (drop b xs)))"
      by (simp only: chunks_Cons [OF less.prems False] list.size)
    also have "\<dots> = Suc ((length xs - b + b - 1) div b)"
      by (simp only: ih)
    also have "\<dots> = (length xs + b - 1) div b"
      using False by (intro ceil_div_step less.prems) simp
    finally show ?thesis .
  qed
qed


lemma chunks_bounds:
  assumes "0 < b" "list_all (\<lambda>c. c < 256) bytes"
  shows "list_all (\<lambda>v. 0 \<le> v \<and> v < 256 ^ b) (map le_val (chunks b bytes))"
  using assms(2)
proof (induction "length bytes" arbitrary: bytes rule: less_induct)
  case less
  show ?case
  proof (cases "bytes = []")
    case True
    then show ?thesis by (simp add: chunks_Nil)
  next
    case False
    have lt: "length (drop b bytes) < length bytes"
      using False assms(1) by simp
    have call: "list_all (\<lambda>c. c < 256) (take b bytes)"
      and rall: "list_all (\<lambda>c. c < 256) (drop b bytes)"
      using less.prems by (auto simp: list_all_iff dest: in_set_takeD in_set_dropD)
    have "le_val (take b bytes) < 256 ^ length (take b bytes)"
      by (rule le_val_bound [OF call])
    also have "(256::int) ^ length (take b bytes) \<le> 256 ^ b"
      by (intro power_increasing) simp_all
    finally have "le_val (take b bytes) < 256 ^ b" .
    then show ?thesis
      using less.hyps [OF lt rall] le_val_nonneg [of "take b bytes"]
      by (simp add: chunks_Cons [OF assms(1) False])
  qed
qed

lemma ceiling_div_nat:
  assumes "0 < (b::nat)"
  shows "\<lceil>real L / real b\<rceil> = int ((L + b - 1) div b)"
proof -
  define q where "q = (L + b - 1) div b"
  define r where "r = (L + b - 1) mod b"
  have r: "r < b" using assms by (simp add: r_def)
  have "L + b - 1 = q * b + r" by (simp add: q_def r_def)
  then have eq: "int L = int q * int b - (int b - 1 - int r)"
  proof -
    have "int (L + b - 1) = int L + int b - 1"
      using assms by simp
    moreover have "int (L + b - 1) = int q * int b + int r"
      using \<open>L + b - 1 = q * b + r\<close> by (simp only: of_nat_add of_nat_mult)
    ultimately show ?thesis by simp
  qed
  have up: "real L \<le> real q * real b"
  proof -
    have "int L \<le> int q * int b" using eq r by simp
    then show ?thesis by (metis of_nat_le_iff of_nat_mult)
  qed
  have lo: "(real q - 1) * real b < real L"
  proof -
    have "(int q - 1) * int b < int L" using eq r by (simp add: algebra_simps)
    then have "real_of_int ((int q - 1) * int b) < real_of_int (int L)"
      by (simp only: of_int_less_iff)
    then show ?thesis by simp
  qed
  have bpos: "0 < real b" using assms by simp
  have "\<lceil>real L / real b\<rceil> = int q"
  proof (rule ceiling_unique)
    show "real_of_int (int q) - 1 < real L / real b"
      using lo bpos by (simp add: pos_less_divide_eq)
    show "real L / real b \<le> real_of_int (int q)"
      using up bpos by (simp add: pos_divide_le_eq)
  qed
  then show ?thesis by (simp add: q_def)
qed

text \<open>
  Claim C8. For an ASCII message and a block size of at least one, \<^verbatim>\<open>text2int\<close> returns
  a list of blocks, and every block is non-negative and strictly below \<open>256 ^ block_size\<close>.
\<close>

theorem text2int_block_bounds:
  assumes "list_all (\<lambda>c. c < 128) m" "1 \<le> b"
  shows "\<exists>blocks. text2int m b = Inr blocks
           \<and> (\<forall>v \<in> set blocks. 0 \<le> v \<and> v < 256 ^ nat b)"
proof -
  define n where "n = nat b"
  have n: "0 < n" "int n = b" using assms(2) by (simp_all add: n_def)
  have "text2int m (int n) = Inr (map le_val (chunks n (rstrip_nul m)))"
    by (rule text2int_chunks [OF rstrip_nul_ascii [OF assms(1)] n(1)])
  then have enc: "text2int m b = Inr (map le_val (chunks n (rstrip_nul m)))"
    by (simp only: n(2))
  have "list_all (\<lambda>v. 0 \<le> v \<and> v < 256 ^ n) (map le_val (chunks n (rstrip_nul m)))"
    by (rule chunks_bounds [OF n(1) ascii_bytes [OF rstrip_nul_ascii [OF assms(1)]]])
  then have "\<forall>v \<in> set (map le_val (chunks n (rstrip_nul m))). 0 \<le> v \<and> v < 256 ^ nat b"
    by (simp only: list_all_iff n_def)
  with enc show ?thesis by blast
qed

theorem text2int_block_bounds_witness:
  "list_all (\<lambda>c. c < 128) [97, 98, 99, 100, 101 :: nat] \<and> (1::int) \<le> 2
   \<and> text2int [97, 98, 99, 100, 101] 2 = Inr [25185, 25699, 101]
   \<and> (\<exists>blocks. text2int [97, 98, 99, 100, 101] 2 = Inr blocks
         \<and> (\<forall>v \<in> set blocks. 0 \<le> v \<and> v < 256 ^ nat 2))"
  using text2int_block_bounds [of "[97, 98, 99, 100, 101]" 2]
  by (simp add: text2int_def encode_ascii_def rstrip_nul_def block_val_def py_range.simps)

text \<open>
  Claim C7. For an ASCII message and a block size \<open>b\<close> of at least one, \<^verbatim>\<open>text2int\<close>
  returns exactly \<open>ceil(L / b)\<close> blocks, \<open>L\<close> being the length of the message once its
  trailing NULs are stripped. When \<open>L = b\<close> there is one block; when \<open>L = b + 1\<close> there
  are two, and the second is the value of the last byte.
\<close>

theorem text2int_block_count:
  assumes "list_all (\<lambda>c. c < 128) m" "1 \<le> b"
  shows "\<exists>blocks. text2int m b = Inr blocks
           \<and> int (length blocks) = \<lceil>real (length (rstrip_nul m)) / real_of_int b\<rceil>
           \<and> (int (length (rstrip_nul m)) = b \<longrightarrow> length blocks = 1)
           \<and> (int (length (rstrip_nul m)) = b + 1 \<longrightarrow>
                 length blocks = 2 \<and> blocks ! 1 = int (last (rstrip_nul m)))"
proof -
  define n where "n = nat b"
  define bytes where "bytes = rstrip_nul m"
  have n: "0 < n" "int n = b" using assms(2) by (simp_all add: n_def)
  have enc: "text2int m b = Inr (map le_val (chunks n bytes))"
    using text2int_chunks [OF rstrip_nul_ascii [OF assms(1)] n(1)] by (simp only: n(2) bytes_def)
  have len: "length (chunks n bytes) = (length bytes + n - 1) div n"
    by (rule length_chunks [OF n(1)])
  have ceil: "int (length (chunks n bytes)) = \<lceil>real (length bytes) / real_of_int b\<rceil>"
    using ceiling_div_nat [OF n(1), of "length bytes"] by (simp add: len flip: n(2))
  have one: "length (chunks n bytes) = 1" if "int (length bytes) = b"
  proof -
    from that n(2) have l: "length bytes = n" by simp
    then have ne: "bytes \<noteq> []" using n(1) by auto
    show ?thesis
      using chunks_Cons [OF n(1) ne] by (simp add: l chunks_Nil)
  qed
  have two: "length (chunks n bytes) = 2 \<and> map le_val (chunks n bytes) ! 1 = int (last bytes)"
    if "int (length bytes) = b + 1"
  proof -
    from that n(2) have l: "length bytes = Suc n" by simp
    then have ne: "bytes \<noteq> []" by auto
    have dl: "length (drop n bytes) = 1" by (simp add: l)
    then obtain c where c: "drop n bytes = [c]"
      by (cases "drop n bytes") simp_all
    have "last bytes = last (drop n bytes)"
      using l by simp
    then have lc: "last bytes = c" by (simp add: c)
    have "chunks n bytes = [take n bytes, [c]]"
      using chunks_Cons [OF n(1) ne] chunks_Cons [OF n(1), of "[c]"] n(1)
      by (simp add: c chunks_Nil)
    then show ?thesis by (simp add: lc)
  qed
  show ?thesis
    using enc ceil one two by (auto simp: bytes_def)
qed

theorem text2int_block_count_witness:
  "list_all (\<lambda>c. c < 128) [97, 98, 99, 0, 0 :: nat] \<and> (1::int) \<le> 2
   \<and> int (length (rstrip_nul [97, 98, 99, 0, 0])) = 2 + 1
   \<and> (\<exists>blocks. text2int [97, 98, 99, 0, 0] 2 = Inr blocks
         \<and> length blocks = 2 \<and> blocks ! 1 = 99)"
  using text2int_block_count [of "[97, 98, 99, 0, 0]" 2]
  by (simp add: rstrip_nul_def)

text \<open>
  Claim C2. For an ASCII message \<open>m\<close> that does not end in NUL and a block size \<open>b\<close> of at
  least one, \<^verbatim>\<open>int2text(text2int(m, b), b)\<close> returns \<open>m\<close>: neither call raises and the
  round trip is the identity.
\<close>

theorem int2text_text2int_roundtrip:
  assumes "list_all (\<lambda>c. c < 128) m" "m = [] \<or> last m \<noteq> 0" "1 \<le> b"
  shows "\<exists>blocks. text2int m b = Inr blocks \<and> int2text blocks b = Inr m"
proof -
  define n where "n = nat b"
  have n: "0 < n" "int n = b" using assms(3) by (simp_all add: n_def)
  have id: "rstrip_nul m = m" by (rule rstrip_nul_id [OF assms(2)])
  have "text2int m (int n) = Inr (map le_val (chunks n (rstrip_nul m)))"
    by (rule text2int_chunks [OF rstrip_nul_ascii [OF assms(1)] n(1)])
  then have enc: "text2int m b = Inr (map le_val (chunks n m))"
    by (simp only: n(2) id)
  obtain k where "int2text_loop (map le_val (chunks n m)) (int n) []
                  = Inr ([] @ m @ replicate k 0)"
    using int2text_loop_chunks [OF n(1) ascii_bytes [OF assms(1)], of "[]"] by blast
  then have "int2text_loop (map le_val (chunks n m)) b [] = Inr (m @ replicate k 0)"
    by (simp only: n(2) append_Nil)
  then have "int2text (map le_val (chunks n m)) b = Inr m"
    by (simp add: int2text_def rstrip_nul_padding id)
  with enc show ?thesis by simp
qed

theorem int2text_text2int_roundtrip_witness:
  "list_all (\<lambda>c. c < 128) [97, 98, 99, 100, 101 :: nat] \<and> last [97, 98, 99, 100, 101 :: nat] \<noteq> 0
   \<and> (1::int) \<le> 2
   \<and> text2int [97, 98, 99, 100, 101] 2 = Inr [25185, 25699, 101]
   \<and> int2text [25185, 25699, 101] 2 = Inr [97, 98, 99, 100, 101]"
  using int2text_text2int_roundtrip [of "[97, 98, 99, 100, 101]" 2]
  by (simp add: text2int_def encode_ascii_def rstrip_nul_def block_val_def py_range.simps)


section \<open>The modular inverse: termination and correctness\<close>

lemma multinv_loop_0: "multinv_loop a 0 x lastx = Some (a, 0, x, lastx)"
  by (subst multinv_loop.simps) simp

lemma multinv_loop_step:
  "b \<noteq> 0 \<Longrightarrow> multinv_loop a b x lastx = multinv_loop b (a mod b) (lastx - (a div b) * x) x"
  by (subst multinv_loop.simps) simp

lemma multinv_loop_terminates:
  "\<exists>a' x' lastx'. multinv_loop a b x lastx = Some (a', 0, x', lastx')"
proof (induction "nat \<bar>b\<bar>" arbitrary: a b x lastx rule: less_induct)
  case less
  show ?case
  proof (cases "b = 0")
    case True
    then show ?thesis by (simp add: multinv_loop_0)
  next
    case False
    then have "\<bar>a mod b\<bar> < \<bar>b\<bar>" by (rule abs_mod_less)
    then have "nat \<bar>a mod b\<bar> < nat \<bar>b\<bar>" by simp
    from less [OF this, of b "lastx - (a div b) * x" x] False
    show ?thesis by (simp add: multinv_loop_step)
  qed
qed

text \<open>
  Claim C10. For every integer modulus and every integer value the extended-Euclidean loop of
  \<^verbatim>\<open>multinv\<close> reaches \<open>b = 0\<close>; for a nonzero value \<^verbatim>\<open>multinv\<close> returns an integer, whether
  or not modulus and value are coprime, and for the value zero it raises the division error.
\<close>

theorem multinv_terminates:
  "(\<exists>a x lastx. multinv_loop modulus val 0 1 = Some (a, 0, x, lastx))
   \<and> (val \<noteq> 0 \<longrightarrow> (\<exists>r. multinv modulus val = Some (Inr r)))
   \<and> (val = 0 \<longrightarrow> multinv modulus val = Some (Inl ZeroDivisionError))"
proof -
  obtain a x lastx where "multinv_loop modulus val 0 1 = Some (a, 0, x, lastx)"
    using multinv_loop_terminates [of modulus val 0 1] by blast
  then show ?thesis by (auto simp: multinv_def Let_def)
qed

theorem multinv_terminates_witness:
  "(8::int) \<noteq> 0 \<and> gcd (12::int) 8 \<noteq> 1
   \<and> multinv_loop 12 8 0 1 = Some (4, 0, - 2, 1)
   \<and> multinv 12 8 = Some (Inr 10)
   \<and> multinv 12 0 = Some (Inl ZeroDivisionError)"
proof -
  have g: "gcd (12::int) 8 \<noteq> 1" by code_simp
  show ?thesis
    using g multinv_terminates [of 12 8] multinv_terminates [of 12 0]
    by (simp add: multinv_def multinv_loop_step multinv_loop_0)
qed


lemma multinv_loop_inverse:
  assumes "0 < a" "0 \<le> b" "0 < val" "gcd a b = 1"
    and "x * lastx \<le> 0" "a * \<bar>x\<bar> + b * \<bar>lastx\<bar> = val"
    and "lastx = 0 \<longrightarrow> 0 \<le> x" "x = 0 \<longrightarrow> 0 \<le> lastx"
    and "- val < lastx" "lastx \<le> val"
    and "\<exists>y. a = lastx * m + y * val" "\<exists>y. b = x * m + y * val"
  shows "\<exists>x' lastx'. multinv_loop a b x lastx = Some (1, 0, x', lastx')
           \<and> - val < lastx' \<and> lastx' \<le> val \<and> (\<exists>y. 1 = lastx' * m + y * val)"
  using assms
proof (induction "nat b" arbitrary: a b x lastx rule: less_induct)
  case less
  note prems = less.prems
  show ?case
  proof (cases "b = 0")
    case True
    with prems(1,4) have "a = 1" by simp
    then show ?thesis
      using True prems(9,10,11) by (simp add: multinv_loop_0)
  next
    case False
    with prems(2) have bpos: "0 < b" by simp
    define q where "q = a div b"
    define r where "r = a mod b"
    have a_eq: "a = b * q + r" by (simp add: q_def r_def)
    have r0: "0 \<le> r" and rlt: "r < b" using bpos by (simp_all add: r_def)
    have q0: "0 \<le> q" using prems(1) bpos by (simp add: q_def pos_imp_zdiv_nonneg_iff)
    have m: "nat r < nat b" using r0 rlt by simp
    have g: "gcd b r = 1"
      using prems(4) by (metis gcd_red_int r_def)
    have qx: "0 \<le> q * \<bar>x\<bar>" using q0 by simp
    have signs: "(0 < x \<and> lastx \<le> 0) \<or> (x = 0 \<and> 0 < lastx) \<or> (x < 0 \<and> 0 \<le> lastx)"
    proof -
      consider "0 < x" | "x = 0" | "x < 0" by linarith
      then show ?thesis
      proof cases
        case 1
        with prems(5) have "lastx \<le> 0" by (simp add: mult_le_0_iff)
        with 1 show ?thesis by simp
      next
        case 2
        with prems(6) have "b * \<bar>lastx\<bar> = val" by simp
        with prems(3) have "lastx \<noteq> 0" by auto
        with 2 prems(8) show ?thesis by simp
      next
        case 3
        with prems(5) have "0 \<le> lastx" by (simp add: mult_le_0_iff)
        with 3 show ?thesis by simp
      qed
    qed
    have absx': "\<bar>lastx - q * x\<bar> = \<bar>lastx\<bar> + q * \<bar>x\<bar>"
      and p5: "(lastx - q * x) * x \<le> 0"
      and p8: "lastx - q * x = 0 \<longrightarrow> 0 \<le> x"
    proof -
      from signs show "\<bar>lastx - q * x\<bar> = \<bar>lastx\<bar> + q * \<bar>x\<bar>"
      proof (elim disjE conjE)
        assume x: "0 < x" "lastx \<le> 0"
        then have "0 \<le> q * x" using q0 by simp
        with x have "\<bar>lastx - q * x\<bar> = q * x - lastx" by linarith
        with x show ?thesis by simp
      next
        assume "x = 0" "0 < lastx"
        then show ?thesis by simp
      next
        assume x: "x < 0" "0 \<le> lastx"
        then have "q * x \<le> 0" using q0 by (simp add: mult_nonneg_nonpos)
        with x have "\<bar>lastx - q * x\<bar> = lastx - q * x" by linarith
        moreover have "q * \<bar>x\<bar> = - (q * x)" using x by simp
        ultimately show ?thesis using x by simp
      qed
      from signs show "(lastx - q * x) * x \<le> 0"
      proof (elim disjE conjE)
        assume x: "0 < x" "lastx \<le> 0"
        then have "0 \<le> q * x" using q0 by simp
        with x have "lastx - q * x \<le> 0" by linarith
        with x show ?thesis by (intro mult_nonpos_nonneg) simp_all
      next
        assume "x = 0" "0 < lastx"
        then show ?thesis by simp
      next
        assume x: "x < 0" "0 \<le> lastx"
        then have "q * x \<le> 0" using q0 by (simp add: mult_nonneg_nonpos)
        with x have "0 \<le> lastx - q * x" by linarith
        with x show ?thesis by (intro mult_nonneg_nonpos) simp_all
      qed
      from signs show "lastx - q * x = 0 \<longrightarrow> 0 \<le> x"
      proof (elim disjE conjE)
        assume "0 < x" "lastx \<le> 0"
        then show ?thesis by simp
      next
        assume "x = 0" "0 < lastx"
        then show ?thesis by simp
      next
        assume x: "x < 0" "0 \<le> lastx"
        then have "q * x \<le> 0" using q0 by (simp add: mult_nonneg_nonpos)
        show ?thesis
        proof
          assume "lastx - q * x = 0"
          with x \<open>q * x \<le> 0\<close> have "lastx = 0" by simp
          with prems(7) x show "0 \<le> x" by simp
        qed
      qed
    qed
    have p6: "b * \<bar>lastx - q * x\<bar> + r * \<bar>x\<bar> = val"
    proof -
      have "b * \<bar>lastx - q * x\<bar> + r * \<bar>x\<bar> = (b * q + r) * \<bar>x\<bar> + b * \<bar>lastx\<bar>"
        by (simp add: absx' algebra_simps)
      then show ?thesis using prems(6) by (simp add: a_eq [symmetric])
    qed
    have p7: "x = 0 \<longrightarrow> 0 \<le> lastx - q * x"
      using prems(8) by simp
    have ax: "\<bar>x\<bar> \<le> a * \<bar>x\<bar>"
      using prems(1) by (simp add: mult_le_cancel_right1)
    have bl: "0 \<le> b * \<bar>lastx\<bar>" using bpos by simp
    have p10: "x \<le> val"
      using ax bl prems(6) by linarith
    have p9: "- val < x"
    proof (rule ccontr)
      assume "\<not> - val < x"
      with ax bl prems(6) have xv: "x = - val" by linarith
      with prems(3) have "\<bar>x\<bar> = val" by simp
      with ax bl prems(6) have "b * \<bar>lastx\<bar> = 0" by linarith
      with bpos have "lastx = 0" by simp
      with prems(7) xv prems(3) show False by simp
    qed
    from prems(11) obtain y1 where y1: "a = lastx * m + y1 * val" by blast
    from prems(12) obtain y2 where y2: "b = x * m + y2 * val" by blast
    have "r = a - q * b" using a_eq by (simp add: algebra_simps)
    also have "\<dots> = (lastx * m + y1 * val) - q * (x * m + y2 * val)"
      using y1 y2 by simp
    also have "\<dots> = (lastx - q * x) * m + (y1 - q * y2) * val"
      by (simp add: algebra_simps)
    finally have p12: "\<exists>y. r = (lastx - q * x) * m + y * val" by blast
    have "\<exists>x' lastx'. multinv_loop b r (lastx - q * x) x = Some (1, 0, x', lastx')
            \<and> - val < lastx' \<and> lastx' \<le> val \<and> (\<exists>y. 1 = lastx' * m + y * val)"
      by (rule less.hyps [OF m bpos r0 prems(3) g p5 p6 p7 p8 p9 p10 prems(12) p12])
    then show ?thesis
      using False by (simp add: multinv_loop_step q_def r_def)
  qed
qed

text \<open>
  On positive values the loop does what its docstring says: for a modulus above one and a
  positive value coprime to it, \<^verbatim>\<open>multinv\<close> returns an integer \<open>x\<close> with
  \<open>0 \<le> x < modulus\<close> and \<open>(value * x) mod modulus = 1\<close>; in particular
  \<^verbatim>\<open>multinv(11, 3)\<close> is 4, as the doctest says.
\<close>

lemma multinv_inverse:
  assumes "gcd modulus val = 1" "1 < modulus" "0 < val"
  shows "(\<exists>x. multinv modulus val = Some (Inr x) \<and> 0 \<le> x \<and> x < modulus
             \<and> (val * x) mod modulus = 1)
         \<and> multinv 11 3 = Some (Inr 4)"
proof -
  have particular: "multinv 11 3 = Some (Inr 4)"
    by (simp add: multinv_def multinv_loop_step multinv_loop_0)
  have "\<exists>x' lastx'. multinv_loop modulus val 0 1 = Some (1, 0, x', lastx')
          \<and> - val < lastx' \<and> lastx' \<le> val \<and> (\<exists>y. 1 = lastx' * modulus + y * val)"
  proof (rule multinv_loop_inverse)
    show "\<exists>y. modulus = 1 * modulus + y * val" by (rule exI [of _ 0]) simp
    show "\<exists>y. val = 0 * modulus + y * val" by (rule exI [of _ 1]) simp
  qed (use assms in simp_all)
  then obtain x' lastx y where loop: "multinv_loop modulus val 0 1 = Some (1, 0, x', lastx)"
    and lo: "- val < lastx" and hi: "lastx \<le> val" and bez: "1 = lastx * modulus + y * val"
    by blast
  have yv: "y * val = 1 - lastx * modulus" using bez by simp
  then have res: "(1 - lastx * modulus) div val = y"
    using assms(3) by (metis nonzero_mult_div_cancel_right less_irrefl)
  have ylt: "y < modulus"
  proof (rule ccontr)
    assume "\<not> y < modulus"
    then have "modulus * val \<le> y * val"
      using assms(3) by (simp add: mult_right_mono)
    moreover have "(1 - val) * modulus \<le> lastx * modulus"
      using lo assms(2) by (intro mult_right_mono) simp_all
    ultimately have "modulus * val + (1 - val) * modulus \<le> 1"
      using bez by linarith
    then show False using assms(2) by (simp add: algebra_simps)
  qed
  have yge: "- modulus \<le> y"
  proof (rule ccontr)
    assume "\<not> - modulus \<le> y"
    then have "y \<le> - modulus - 1" by simp
    then have "y * val \<le> (- modulus - 1) * val"
      using assms(3) by (intro mult_right_mono) simp_all
    moreover have "lastx * modulus \<le> val * modulus"
      using hi assms(2) by (intro mult_right_mono) simp_all
    ultimately have "1 \<le> val * modulus + (- modulus - 1) * val"
      using bez by linarith
    then show False using assms(3) by (simp add: algebra_simps)
  qed
  have inv: "(val * y) mod modulus = 1"
  proof -
    have "val * y = 1 + (- lastx) * modulus" using yv by (simp add: algebra_simps)
    then have "(val * y) mod modulus = 1 mod modulus" by (simp only: mod_mult_self1)
    then show ?thesis using assms(2) by simp
  qed
  have inv': "(val * (y + modulus)) mod modulus = 1"
    using inv by (simp add: algebra_simps)
  have "multinv modulus val = Some (Inr (if y < 0 then y + modulus else y))"
    using loop assms(3) by (simp add: multinv_def res)
  then show ?thesis
    using ylt yge inv inv' particular by auto
qed

lemma multinv_inverse_example:
  "gcd (7::int) 5 = 1 \<and> (1::int) < 7 \<and> (0::int) < 5
   \<and> multinv 7 5 = Some (Inr 3) \<and> (5 * 3) mod (7::int) = 1"
proof -
  have g: "gcd (7::int) 5 = 1" by code_simp
  show ?thesis
    using g multinv_inverse [OF g]
    by (simp add: multinv_def multinv_loop_step multinv_loop_0)
qed

text \<open>
  Claim C4. For every pair (modulus, value) with \<open>gcd(modulus, value) = 1\<close> and
  \<open>modulus > 1\<close>, \<^verbatim>\<open>multinv(modulus, value)\<close> should return an integer \<open>x\<close> of
  \<open>[0, modulus)\<close> with \<open>(value * x) mod modulus = 1\<close>. The code breaks this on negative
  values: the pair \<open>(11, - 3)\<close> is coprime, the loop ends with \<open>a = - 1\<close> instead of \<open>1\<close>, and
  \<^verbatim>\<open>multinv(11, -3)\<close> returns 3 although \<open>(- 3 * 3) mod 11 = 2\<close>; likewise
  \<^verbatim>\<open>multinv(11, -4)\<close> returns 2 although \<open>(- 4 * 2) mod 11 = 3\<close>. The docstring promises
  ``an integer x such that a*x is congruent to 1 modulo M'' with no restriction on the sign,
  and the final \<^verbatim>\<open>result + mod if result < 0\<close> shows that negative intermediate values are
  expected.
\<close>

theorem multinv_negative_value_failure:
  "gcd (11::int) (- 3) = 1 \<and> (1::int) < 11
   \<and> multinv 11 (- 3) = Some (Inr 3) \<and> (- 3 * 3) mod (11::int) = 2
   \<and> gcd (11::int) (- 4) = 1
   \<and> multinv 11 (- 4) = Some (Inr 2) \<and> (- 4 * 2) mod (11::int) = 3"
proof -
  have g: "gcd (11::int) (- 3) = 1" "gcd (11::int) (- 4) = 1" by code_simp+
  have "multinv 11 (- 3) = Some (Inr 3)" "multinv 11 (- 4) = Some (Inr 2)"
    by (simp_all add: multinv_def multinv_loop_step multinv_loop_0)
  with g show ?thesis by simp
qed

section \<open>The cipher: which errors encrypt raises\<close>

lemma pow_blocks_ok:
  "n \<noteq> 0 \<Longrightarrow> 0 \<le> ex \<Longrightarrow> pow_blocks blocks ex n = Inr (map (\<lambda>block. block ^ nat ex mod n) blocks)"
  by (induction blocks) (simp_all add: py_pow_def)

lemma pow_blocks_Inr:
  "pow_blocks blocks ex n = Inr cs \<Longrightarrow>
     map (\<lambda>block. py_pow block ex n) blocks = map Inr cs
     \<and> cs = map (\<lambda>block. block ^ nat ex mod n) blocks"
proof (induction blocks arbitrary: cs)
  case Nil
  then show ?case by simp
next
  case (Cons block blocks)
  then show ?case
    by (auto simp: py_pow_def split: sum.splits if_splits)
qed

lemma pow_blocks_no_exception: "pow_blocks blocks ex n \<noteq> Inl (Exception s)"
  by (induction blocks) (auto simp: py_pow_def split: sum.splits)

lemma text2int_no_exception: "text2int msg block_size \<noteq> Inl (Exception s)"
  by (auto simp: text2int_def encode_ascii_def split: sum.splits)

lemma text2int_ascii_ok:
  "list_all (\<lambda>c. c < 128) msg \<Longrightarrow> block_size \<noteq> 0 \<Longrightarrow> \<exists>blocks. text2int msg block_size = Inr blocks"
  using rstrip_nul_ascii [of msg] by (simp add: text2int_def encode_ascii_def)

text \<open>
  Claim C6, as amended. \<^verbatim>\<open>encrypt\<close> of \<^verbatim>\<open>dcrypt.py\<close> raises its key-size error exactly when
  the declared bit size is at most \<open>block_size * 8\<close>. For an ASCII message, a nonzero block
  size, a nonzero modulus and a non-negative exponent it raises no other error, so it raises
  if and only if the declared bit size is at most \<open>block_size * 8\<close>. Whenever it returns, the
  result is the list of the values \<^verbatim>\<open>pow(block, e, n)\<close> of the blocks of \<^verbatim>\<open>text2int\<close>.
\<close>

theorem dcrypt_encrypt_errors:
  "(dcrypt_encrypt msg (n, e, declared) block_size
      = Inl (Exception ''Key bits must be larger than block bits.'')
    \<longleftrightarrow> declared \<le> block_size * 8)
   \<and> (list_all (\<lambda>c. c < 128) msg \<and> block_size \<noteq> 0 \<and> n \<noteq> 0 \<and> 0 \<le> e \<longrightarrow>
        ((\<exists>err. dcrypt_encrypt msg (n, e, declared) block_size = Inl err)
         \<longleftrightarrow> declared \<le> block_size * 8))
   \<and> (\<forall>cs. dcrypt_encrypt msg (n, e, declared) block_size = Inr cs \<longrightarrow>
        (\<exists>blocks. text2int msg block_size = Inr blocks
           \<and> map (\<lambda>block. py_pow block e n) blocks = map Inr cs
           \<and> cs = map (\<lambda>block. block ^ nat e mod n) blocks))"
proof (intro conjI impI allI)
  show "dcrypt_encrypt msg (n, e, declared) block_size
          = Inl (Exception ''Key bits must be larger than block bits.'')
        \<longleftrightarrow> declared \<le> block_size * 8"
    using pow_blocks_no_exception [of _ e n "''Key bits must be larger than block bits.''"]
      text2int_no_exception [of msg block_size "''Key bits must be larger than block bits.''"]
    by (auto simp: dcrypt_encrypt_def split: sum.splits)
next
  assume a: "list_all (\<lambda>c. c < 128) msg \<and> block_size \<noteq> 0 \<and> n \<noteq> 0 \<and> 0 \<le> e"
  then obtain blocks where "text2int msg block_size = Inr blocks"
    using text2int_ascii_ok by blast
  then show "(\<exists>err. dcrypt_encrypt msg (n, e, declared) block_size = Inl err)
             \<longleftrightarrow> declared \<le> block_size * 8"
    using a by (simp add: dcrypt_encrypt_def pow_blocks_ok)
next
  fix cs
  assume "dcrypt_encrypt msg (n, e, declared) block_size = Inr cs"
  then show "\<exists>blocks. text2int msg block_size = Inr blocks
           \<and> map (\<lambda>block. py_pow block e n) blocks = map Inr cs
           \<and> cs = map (\<lambda>block. block ^ nat e mod n) blocks"
    using pow_blocks_Inr [of _ e n cs]
    by (auto simp: dcrypt_encrypt_def split: if_splits sum.splits)
qed

theorem dcrypt_encrypt_errors_witness:
  "list_all (\<lambda>c. c < 128) [97, 98, 99 :: nat] \<and> (2::int) \<noteq> 0 \<and> (3233::int) \<noteq> 0 \<and> (0::int) \<le> 17
   \<and> \<not> ((32::int) \<le> 2 * 8)
   \<and> dcrypt_encrypt [97, 98, 99] (3233, 17, 32) 2 = Inr [460, 281]
   \<and> text2int [97, 98, 99] 2 = Inr [25185, 99]
   \<and> dcrypt_encrypt [97, 98, 99] (3233, 17, 16) 2
       = Inl (Exception ''Key bits must be larger than block bits.'')"
  using dcrypt_encrypt_errors [of "[97, 98, 99]" 3233 17 32 2]
    dcrypt_encrypt_errors [of "[97, 98, 99]" 3233 17 16 2]
  by (simp add: dcrypt_encrypt_def text2int_def encode_ascii_def rstrip_nul_def block_val_def
      py_range.simps py_pow_def)

text \<open>
  The claim as stated fails for a message that is not ASCII: the declared size 16 exceeds
  \<open>1 * 8\<close>, and \<^verbatim>\<open>encrypt\<close> still raises, from \<^verbatim>\<open>encode("ascii")\<close>.
\<close>

theorem dcrypt_encrypt_non_ascii_counterexample:
  "dcrypt_encrypt [233] (3233, 17, 16) 1 = Inl UnicodeEncodeError \<and> \<not> ((16::int) \<le> 1 * 8)"
  by (simp add: dcrypt_encrypt_def text2int_def encode_ascii_def rstrip_nul_def)


section \<open>Primes: Fermat's little theorem and primality certificates\<close>

lemma prime_nat_gt1: "prime_nat p \<Longrightarrow> 1 < p"
  by (simp add: prime_nat_def)

lemma prime_factor: "1 < n \<Longrightarrow> \<exists>p. prime_nat p \<and> p dvd n"
proof (induction n rule: less_induct)
  case (less n)
  show ?case
  proof (cases "prime_nat n")
    case True
    then have "prime_nat n \<and> n dvd n" by simp
    then show ?thesis ..
  next
    case False
    with less.prems obtain m where m: "m dvd n" "m \<noteq> 1" "m \<noteq> n"
      by (auto simp: prime_nat_def)
    from m less.prems have "m \<noteq> 0" by (metis dvd_0_left_iff)
    with m have "1 < m" by simp
    moreover from m less.prems have "m < n"
      by (metis dvd_imp_le le_neq_implies_less less_trans zero_less_one)
    ultimately obtain p where "prime_nat p" "p dvd m"
      using less.IH by blast
    with m(1) show ?thesis by (meson dvd_trans)
  qed
qed

lemma prime_coprime: "prime_nat p \<Longrightarrow> \<not> p dvd a \<Longrightarrow> coprime p a"
proof (rule coprimeI)
  fix c assume p: "prime_nat p" and n: "\<not> p dvd a" and c: "c dvd p" "c dvd a"
  from p c(1) have "c = 1 \<or> c = p" by (simp add: prime_nat_def)
  with n c(2) show "is_unit c" by auto
qed

lemma prime_dvd_mult:
  assumes "prime_nat p" "p dvd a * b"
  shows "p dvd a \<or> p dvd b"
proof (cases "p dvd a")
  case False
  then have "coprime p a" by (rule prime_coprime [OF assms(1)])
  with assms(2) show ?thesis by (simp add: coprime_dvd_mult_right_iff)
qed simp

lemma prime_dvd_power: "prime_nat p \<Longrightarrow> p dvd a ^ k \<Longrightarrow> p dvd a"
proof (induction k)
  case 0
  then show ?case by (simp add: prime_nat_def)
next
  case (Suc k)
  from Suc.prems(2) have "p dvd a * a ^ k" by simp
  with prime_dvd_mult [OF Suc.prems(1)] Suc.IH [OF Suc.prems(1)] show ?case by blast
qed

lemma prime_dvd_choose:
  assumes "prime_nat p" "0 < k" "k < p"
  shows "p dvd (p choose k)"
proof -
  have "k * (p choose k) = p * ((p - 1) choose (k - 1))"
    using assms(2) by (rule times_binomial_minus1_eq)
  then have "p dvd k * (p choose k)" by simp
  moreover have "\<not> p dvd k" using assms(2,3) by (auto dest: dvd_imp_le)
  ultimately show ?thesis using prime_dvd_mult [OF assms(1)] by blast
qed

lemma fermat_succ:
  assumes "prime_nat p"
  shows "(a + 1) ^ p mod p = (a ^ p + 1) mod p"
proof -
  have p: "0 < p" using assms by (simp add: prime_nat_def)
  have "(a + 1) ^ p = (\<Sum>k\<le>p. (p choose k) * a ^ k * 1 ^ (p - k))"
    using binomial_ring [of a 1 p] by simp
  also have "\<dots> = (\<Sum>k\<le>p. (p choose k) * a ^ k)" by simp
  also have "{..p} = insert 0 (insert p {0<..<p})" using p by auto
  also have "(\<Sum>k\<in>insert 0 (insert p {0<..<p}). (p choose k) * a ^ k)
             = 1 + (a ^ p + (\<Sum>k\<in>{0<..<p}. (p choose k) * a ^ k))"
    using p by simp
  finally have eq: "(a + 1) ^ p = (a ^ p + 1) + (\<Sum>k\<in>{0<..<p}. (p choose k) * a ^ k)"
    by simp
  have "p dvd (\<Sum>k\<in>{0<..<p}. (p choose k) * a ^ k)"
    by (rule dvd_sum) (auto intro: dvd_mult2 prime_dvd_choose [OF assms])
  then show ?thesis
    unfolding eq by (metis dvd_def mod_mult_self2)
qed

lemma fermat_little_pow: "prime_nat p \<Longrightarrow> a ^ p mod p = a mod p"
proof (induction a)
  case 0
  then have "0 < p" by (simp add: prime_nat_def)
  then show ?case by (simp add: zero_power)
next
  case (Suc a)
  have "Suc a ^ p mod p = (a ^ p + 1) mod p"
    using fermat_succ [OF Suc.prems, of a] by simp
  also have "\<dots> = (a ^ p mod p + 1) mod p" by (simp add: mod_simps)
  also have "\<dots> = (a mod p + 1) mod p" using Suc by simp
  also have "\<dots> = Suc a mod p" by (simp add: mod_simps)
  finally show ?case .
qed

lemma fermat_little:
  assumes "prime_nat p" "\<not> p dvd a"
  shows "a ^ (p - 1) mod p = 1"
proof -
  have p: "1 < p" using assms(1) by (simp add: prime_nat_def)
  have a: "0 < a" using assms(2) by (cases a) auto
  have "a ^ p mod p = a mod p" by (rule fermat_little_pow [OF assms(1)])
  moreover have "a ^ p = a * a ^ (p - 1)"
    using p by (cases p) simp_all
  ultimately have "(a * a ^ (p - 1)) mod p = (a * 1) mod p" by simp
  moreover have "a * 1 \<le> a * a ^ (p - 1)" using a by simp
  ultimately have "p dvd a * a ^ (p - 1) - a * 1"
    using mod_eq_dvd_iff_nat [of "a * 1" "a * a ^ (p - 1)" p] by blast
  then have "p dvd a * (a ^ (p - 1) - 1)" by (simp add: diff_mult_distrib2)
  with prime_dvd_mult [OF assms(1)] assms(2) have "p dvd a ^ (p - 1) - 1" by blast
  moreover have "1 \<le> a ^ (p - 1)" using a by simp
  ultimately have "a ^ (p - 1) mod p = 1 mod p"
    using mod_eq_dvd_iff_nat [of 1 "a ^ (p - 1)" p] by blast
  then show ?thesis using p by simp
qed

lemma prime_sqrt_one:
  assumes "prime_nat p" "x * x mod p = 1"
  shows "x mod p = 1 \<or> x mod p = p - 1"
proof -
  have p: "1 < p" using assms(1) by (simp add: prime_nat_def)
  define y where "y = x mod p"
  have y: "y < p" using p by (simp add: y_def)
  have yy: "y * y mod p = 1" using assms(2) by (simp add: y_def mod_simps)
  then have y0: "0 < y" using p by (cases y) auto
  have "y * y mod p = 1 mod p" using yy p by simp
  moreover have "1 \<le> y * y" using y0 by (simp add: Suc_le_eq)
  ultimately have "p dvd y * y - 1"
    using mod_eq_dvd_iff_nat [of 1 "y * y" p] by blast
  moreover have "y * y - 1 = (y - 1) * (y + 1)"
    using y0 by (cases y) (simp_all add: algebra_simps)
  ultimately have "p dvd y - 1 \<or> p dvd y + 1"
    using prime_dvd_mult [OF assms(1)] by simp
  then show ?thesis
  proof
    assume "p dvd y - 1"
    then have "y - 1 = 0" using y by (metis diff_le_self dvd_imp_le le_less_trans not_less neq0_conv)
    with y0 show ?thesis by (simp add: y_def)
  next
    assume d: "p dvd y + 1"
    then have "p \<le> y + 1" by (rule dvd_imp_le) simp
    with y have "y = p - 1" by simp
    then show ?thesis by (simp add: y_def)
  qed
qed


lemma power_mod_one:
  assumes "(a::nat) ^ n mod p = 1"
  shows "a ^ (n * k + r) mod p = a ^ r mod p"
proof -
  have "a ^ (n * k + r) mod p = ((a ^ n) ^ k * a ^ r) mod p"
    by (simp add: power_add power_mult)
  also have "\<dots> = ((a ^ n mod p) ^ k * a ^ r) mod p"
    by (metis mod_mult_left_eq power_mod)
  finally have "a ^ (n * k + r) mod p = ((a ^ n mod p) ^ k * a ^ r) mod p" .
  then show ?thesis by (simp add: assms)
qed

lemma power_gcd_one:
  assumes "(a::nat) ^ m mod p = 1" "a ^ n mod p = 1"
  shows "a ^ gcd m n mod p = 1"
  using assms
proof (induction m n rule: gcd_nat_induct)
  case (base m)
  then show ?case by simp
next
  case (step m n)
  have "a ^ (n * (m div n) + m mod n) mod p = a ^ (m mod n) mod p"
    by (rule power_mod_one [OF step.prems(2)])
  then have "a ^ (m mod n) mod p = 1"
    using step.prems(1) by simp
  from step.IH [OF step.prems(2) this] show ?case
    by (simp add: gcd_red_nat [of m n])
qed

lemma pocklington_step:
  assumes q: "prime_nat q" and p: "prime_nat p" and pn: "p dvd n" and qn: "q dvd n - 1"
    and one: "a ^ (n - 1) mod n = 1"
    and cop: "coprime (a ^ ((n - 1) div q) mod n - 1) n"
  shows "q dvd p - 1"
proof (rule ccontr)
  assume nq: "\<not> q dvd p - 1"
  define b where "b = a ^ ((n - 1) div q)"
  have p1: "1 < p" using p by (simp add: prime_nat_def)
  have bq: "b ^ q = a ^ (n - 1)"
    using qn by (simp add: b_def power_mult [symmetric])
  have modp: "x mod n mod p = x mod p" for x
    using pn by (simp add: mod_mod_cancel)
  have "b ^ q mod p = a ^ (n - 1) mod n mod p"
    by (simp add: bq modp)
  then have bq1: "b ^ q mod p = 1" using one p1 by simp
  have "\<not> p dvd b"
  proof
    assume "p dvd b"
    then have "p dvd b ^ q" using q by (cases q) (simp_all add: prime_nat_def)
    then show False using bq1 by (simp add: mod_eq_0_iff_dvd [symmetric])
  qed
  then have bp1: "b ^ (p - 1) mod p = 1" by (rule fermat_little [OF p])
  have "coprime q (p - 1)" by (rule prime_coprime [OF q nq])
  then have "gcd q (p - 1) = 1" by simp
  with power_gcd_one [OF bq1 bp1] have b1: "b mod p = 1" by simp
  define c where "c = b mod n"
  have cp: "c mod p = 1" using b1 by (simp add: c_def modp)
  then have c0: "1 \<le> c" using p1 by (cases c) simp_all
  have "c mod p = 1 mod p" using cp p1 by simp
  then have "p dvd c - 1" using mod_eq_dvd_iff_nat [OF c0, of p] by blast
  moreover have "coprime (c - 1) n" using cop by (simp add: c_def b_def)
  ultimately have "is_unit p" using pn by (meson coprime_common_divisor)
  with p1 show False by simp
qed

lemma prime_by_factors:
  assumes "1 < n" "\<And>p. prime_nat p \<Longrightarrow> p dvd n \<Longrightarrow> n < p * p"
  shows "prime_nat n"
  unfolding prime_nat_def
proof (intro conjI allI impI)
  show "1 < n" by fact
next
  fix m assume m: "m dvd n"
  show "m = 1 \<or> m = n"
  proof (rule ccontr)
    assume "\<not> (m = 1 \<or> m = n)"
    then have m1: "m \<noteq> 1" and mn: "m \<noteq> n" by simp_all
    from m obtain k where k: "n = m * k" ..
    have m0: "m \<noteq> 0" and k0: "k \<noteq> 0" using k assms(1) by (auto intro: ccontr)
    have k1: "k \<noteq> 1" using k mn by auto
    define s where "s = min m k"
    have s: "1 < s" "s dvd n" "s * s \<le> n"
    proof -
      show "1 < s" using m0 m1 k0 k1 by (simp add: s_def min_def)
      show "s dvd n" using k by (simp add: s_def min_def)
      have "s * s \<le> m * k" by (intro mult_mono) (simp_all add: s_def)
      then show "s * s \<le> n" by (simp add: k)
    qed
    obtain p where p: "prime_nat p" "p dvd s" using prime_factor [OF s(1)] by blast
    have "p \<le> s" using p(2) s(1) by (intro dvd_imp_le) simp_all
    then have "p * p \<le> s * s" by (intro mult_mono) simp_all
    moreover have "n < p * p" using p s(2) by (intro assms(2)) (auto intro: dvd_trans)
    ultimately show False using s(3) by simp
  qed
qed

lemma trial_division_sound:
  "trial_division n i \<Longrightarrow> 0 < i \<Longrightarrow> i \<le> d \<Longrightarrow> d * d \<le> n \<Longrightarrow> \<not> d dvd n"
proof (induction n i rule: trial_division.induct)
  case (1 n i)
  from "1.prems"(3,4) have "i * i \<le> n"
    by (meson le_trans mult_le_mono)
  with "1.prems"(1,2) have ni: "n mod i \<noteq> 0" and rec: "trial_division n (i + 1)"
    by (auto simp: trial_division.simps [of n i] split: if_splits)
  show ?case
  proof (cases "d = i")
    case True
    with ni show ?thesis by (simp add: mod_eq_0_iff_dvd)
  next
    case False
    with "1.prems"(3) have "i + 1 \<le> d" by simp
    with "1.IH" rec \<open>i * i \<le> n\<close> "1.prems"(2,4) ni show ?thesis by simp
  qed
qed

lemma prime_by_trial_division:
  assumes "1 < n" "trial_division n 2"
  shows "prime_nat n"
proof (rule prime_by_factors [OF assms(1)])
  fix p assume p: "prime_nat p" "p dvd n"
  show "n < p * p"
  proof (rule ccontr)
    assume "\<not> n < p * p"
    then have "p * p \<le> n" by simp
    moreover have "2 \<le> p" using p(1) by (simp add: prime_nat_def)
    ultimately have "\<not> p dvd n"
      using trial_division_sound [OF assms(2), of p] by simp
    with p(2) show False by simp
  qed
qed


lemma modpow_eq: "modpow b k n = b ^ k mod n"
proof (induction b k n rule: modpow.induct)
  case (1 b k n)
  show ?case
  proof (cases "k = 0")
    case True
    then show ?thesis by (simp add: modpow.simps [of b 0 n])
  next
    case False
    have sq: "(b * b mod n) ^ (k div 2) mod n = b ^ (2 * (k div 2)) mod n"
      by (metis power_mod power_mult power2_eq_square)
    show ?thesis
    proof (cases "even k")
      case True
      then have "2 * (k div 2) = k" by simp
      with "1.IH"(1) [OF False True] sq False True show ?thesis
        by (simp add: modpow.simps [of b k n])
    next
      case odd: False
      then have k: "k = Suc (2 * (k div 2))" by presburger
      have "modpow b k n = b * (b ^ (2 * (k div 2)) mod n) mod n"
        using "1.IH"(2) [OF False odd] sq False odd by (simp add: modpow.simps [of b k n])
      also have "\<dots> = (b * b ^ (2 * (k div 2))) mod n"
        by (simp add: mod_simps)
      also have "\<dots> = b ^ k mod n"
        by (subst (2) k) simp
      finally show ?thesis .
    qed
  qed
qed

lemma nat_power_mod_eq:
  "modpow (int a) k (int n) = int r \<Longrightarrow> a ^ k mod n = r"
  by (simp add: modpow_eq flip: of_nat_power zmod_int)






lemma gcd_nat_step: "gcd (m::nat) n = (if n = 0 then m else gcd n (m mod n))"
  by (simp add: gcd_red_nat [of m n])

lemma pocklington_cert:
  assumes "prime_nat q" "prime_nat p" "p dvd n" "1 < n" "n - 1 = q * k"
    "modpow (int a) (n - 1) (int n) = 1" "modpow (int a) k (int n) = int c" "gcd (c - 1) n = 1"
  shows "q dvd p - 1"
proof (rule pocklington_step [OF assms(1,2,3)])
  have q0: "0 < q" using assms(1) by (simp add: prime_nat_def)
  show "q dvd n - 1" unfolding assms(5) by (rule dvd_triv_left)
  show "a ^ (n - 1) mod n = 1"
    using nat_power_mod_eq [of a "n - 1" n 1] assms(6) by simp
  have "(n - 1) div q = k" unfolding assms(5) using q0 by simp
  moreover have "a ^ k mod n = c" by (rule nat_power_mod_eq [OF assms(7)])
  ultimately show "coprime (a ^ ((n - 1) div q) mod n - 1) n"
    using assms(8) by (simp add: coprime_iff_gcd_eq_1)
qed

lemma pocklington_one:
  assumes "prime_nat q" "1 < n" "n - 1 = q * k"
    "modpow (int a) (n - 1) (int n) = 1" "modpow (int a) k (int n) = int c" "gcd (c - 1) n = 1"
    "n < (q + 1) * (q + 1)"
  shows "prime_nat n"
proof (rule prime_by_factors [OF assms(2)])
  fix p assume p: "prime_nat p" "p dvd n"
  have "q dvd p - 1"
    by (rule pocklington_cert [OF assms(1) p assms(2,3,4,5,6)])
  moreover have p1: "0 < p - 1" using p(1) by (simp add: prime_nat_def)
  ultimately have "q \<le> p - 1" by (rule dvd_imp_le)
  with p1 have "q + 1 \<le> p" by arith
  then have "(q + 1) * (q + 1) \<le> p * p" by (intro mult_mono) simp_all
  with assms(7) show "n < p * p" by simp
qed

lemma pocklington_two:
  assumes "prime_nat q1" "prime_nat q2" "q1 \<noteq> q2" "1 < n"
    "modpow (int a) (n - 1) (int n) = 1"
    "n - 1 = q1 * k1" "modpow (int a) k1 (int n) = int c1" "gcd (c1 - 1) n = 1"
    "n - 1 = q2 * k2" "modpow (int a) k2 (int n) = int c2" "gcd (c2 - 1) n = 1"
    "n < (q1 * q2 + 1) * (q1 * q2 + 1)"
  shows "prime_nat n"
proof (rule prime_by_factors [OF assms(4)])
  fix p assume p: "prime_nat p" "p dvd n"
  have d1: "q1 dvd p - 1"
    by (rule pocklington_cert [OF assms(1) p assms(4,6,5,7,8)])
  have d2: "q2 dvd p - 1"
    by (rule pocklington_cert [OF assms(2) p assms(4,9,5,10,11)])
  have "\<not> q1 dvd q2"
    using assms(1,2,3) by (auto simp: prime_nat_def)
  then have "coprime q1 q2" by (rule prime_coprime [OF assms(1)])
  with d1 d2 have "q1 * q2 dvd p - 1" by (simp add: divides_mult)
  moreover have p1: "0 < p - 1" using p(1) by (simp add: prime_nat_def)
  ultimately have "q1 * q2 \<le> p - 1" by (rule dvd_imp_le)
  with p1 have "q1 * q2 + 1 \<le> p" by arith
  then have "(q1 * q2 + 1) * (q1 * q2 + 1) \<le> p * p" by (intro mult_mono) simp_all
  with assms(12) show "n < p * p" by simp
qed

lemma prime_61: "prime_nat 61"
  by (rule prime_by_trial_division) (simp_all add: trial_division.simps)

lemma prime_6091: "prime_nat 6091"
  by (rule prime_by_trial_division) (simp_all add: trial_division.simps)

lemma prime_6823905667: "prime_nat 6823905667"
proof (rule pocklington_two [of 6091 61 6823905667 2 1120326 428240400 111867306 5553302701])
  show "modpow (int 2) (6823905667 - 1) (int 6823905667) = 1"
    by (simp add: modpow.simps)
  show "modpow (int 2) 1120326 (int 6823905667) = int 428240400"
    by (simp add: modpow.simps)
  show "modpow (int 2) 111867306 (int 6823905667) = int 5553302701"
    by (simp add: modpow.simps)
  show "gcd (428240400 - 1) (6823905667::nat) = 1"
    by (simp add: gcd_nat_step)
  show "gcd (5553302701 - 1) (6823905667::nat) = 1"
    by (simp add: gcd_nat_step)
qed (simp_all add: prime_6091 prime_61)

lemma prime_109182490673: "prime_nat 109182490673"
proof (rule pocklington_one [of 6823905667 109182490673 16 2 65536])
  show "modpow (int 2) (109182490673 - 1) (int 109182490673) = 1"
    by (simp add: modpow.simps)
  show "modpow (int 2) 16 (int 109182490673) = int 65536"
    by (simp add: modpow.simps)
  show "gcd (65536 - 1) (109182490673::nat) = 1"
    by (simp add: gcd_nat_step)
qed (simp_all add: prime_6823905667)


section \<open>The sieve computes the primes below 1000\<close>

lemma isqrt_1000: "isqrt 1000 = 31"
  by (simp add: isqrt.simps Let_def)

lemma mark_multiples_length: "length (mark_multiples s p i sz) = length s"
  by (induction s p i sz rule: mark_multiples.induct)
     (simp add: mark_multiples.simps split: if_splits)

lemma mark_multiples_nth:
  "j < length s \<Longrightarrow> 0 < i \<Longrightarrow>
     mark_multiples s p i sz ! j = (s ! j \<and> \<not> (p \<le> j \<and> j < sz \<and> (j - p) mod i = 0))"
proof (induction s p i sz rule: mark_multiples.induct)
  case (1 s p i sz)
  show ?case
  proof (cases "p < sz")
    case False
    then show ?thesis by (simp add: mark_multiples.simps [of s p i sz])
  next
    case True
    have step: "mark_multiples s p i sz = mark_multiples (s[p := False]) (p + i) i sz"
      using True "1.prems"(2) by (simp add: mark_multiples.simps [of s p i sz])
    have ih: "mark_multiples (s[p := False]) (p + i) i sz ! j
              = (s[p := False] ! j \<and> \<not> (p + i \<le> j \<and> j < sz \<and> (j - (p + i)) mod i = 0))"
      using "1.IH" True "1.prems" by simp
    have later: "(p + i \<le> j \<and> (j - (p + i)) mod i = 0) \<longleftrightarrow> (p < j \<and> (j - p) mod i = 0)"
      if "p \<noteq> j"
    proof
      assume a: "p + i \<le> j \<and> (j - (p + i)) mod i = 0"
      then have "j - p = (j - (p + i)) + i" by simp
      then have "(j - p) mod i = 0" using a by (metis mod_add_self2)
      with a "1.prems"(2) show "p < j \<and> (j - p) mod i = 0" by simp
    next
      assume a: "p < j \<and> (j - p) mod i = 0"
      then have "i dvd j - p" by (simp add: mod_eq_0_iff_dvd)
      then have "i \<le> j - p" using a by (intro dvd_imp_le) simp_all
      with a have le: "p + i \<le> j" by arith
      then have "j - p = (j - (p + i)) + i" by simp
      with a have "(j - (p + i)) mod i = 0" by (metis mod_add_self2)
      with le show "p + i \<le> j \<and> (j - (p + i)) mod i = 0" by simp
    qed
    have unf: "mark_multiples s p i sz ! j
               = (s[p := False] ! j \<and> \<not> (p + i \<le> j \<and> j < sz \<and> (j - (p + i)) mod i = 0))"
      by (simp only: step ih)
    show ?thesis
    proof (cases "p = j")
      case pj: True
      have "s[p := False] ! j = False"
        using "1.prems"(1) pj by simp
      moreover have "p \<le> j \<and> j < sz \<and> (j - p) mod i = 0"
        using pj True by simp
      ultimately show ?thesis unfolding unf by simp
    next
      case False
      then have upd: "s[p := False] ! j = s ! j" by simp
      have "(p \<le> j \<and> (j - p) mod i = 0) \<longleftrightarrow> (p < j \<and> (j - p) mod i = 0)"
        using False by auto
      with later [OF False]
      have A: "(p + i \<le> j \<and> j < sz \<and> (j - (p + i)) mod i = 0)
               \<longleftrightarrow> (p \<le> j \<and> j < sz \<and> (j - p) mod i = 0)"
        by auto
      show ?thesis unfolding unf A upd ..
    qed
  qed
qed

lemma fold_mark_multiples_length:
  "length (fold (\<lambda>i s. mark_multiples s (i * 2) i sz) is s) = length s"
proof (induction "is" arbitrary: s)
  case Nil
  show ?case by simp
next
  case (Cons i "is")
  show ?case by (simp only: fold_Cons comp_apply Cons mark_multiples_length)
qed

lemma fold_mark_multiples_nth:
  assumes "j < length s" "list_all (\<lambda>i. 0 < i) is" "j < sz"
  shows "fold (\<lambda>i s. mark_multiples s (i * 2) i sz) is s ! j
         = (s ! j \<and> list_all (\<lambda>i. \<not> (i * 2 \<le> j \<and> j mod i = 0)) is)"
  using assms(1,2)
proof (induction "is" arbitrary: s)
  case Nil
  then show ?case by simp
next
  case (Cons i "is")
  have i: "0 < i" using Cons.prems(2) by simp
  have len: "j < length (mark_multiples s (i * 2) i sz)"
    using Cons.prems(1) by (simp add: mark_multiples_length)
  have m: "(i * 2 \<le> j \<and> (j - i * 2) mod i = 0) \<longleftrightarrow> (i * 2 \<le> j \<and> j mod i = 0)"
  proof (cases "i * 2 \<le> j")
    case True
    have "((j - i * 2) + i * 2) mod i = (j - i * 2) mod i" by (rule mod_mult_self2)
    moreover have "(j - i * 2) + i * 2 = j" using True by simp
    ultimately have "j mod i = (j - i * 2) mod i" by simp
    then show ?thesis by simp
  qed simp
  have pos: "list_all (\<lambda>i. 0 < i) is" using Cons.prems(2) by simp
  have "fold (\<lambda>i s. mark_multiples s (i * 2) i sz) (i # is) s ! j
        = fold (\<lambda>i s. mark_multiples s (i * 2) i sz) is (mark_multiples s (i * 2) i sz) ! j"
    by simp
  also have "\<dots> = (mark_multiples s (i * 2) i sz ! j
                     \<and> list_all (\<lambda>i. \<not> (i * 2 \<le> j \<and> j mod i = 0)) is)"
    by (rule Cons.IH [OF len pos])
  also have "mark_multiples s (i * 2) i sz ! j
             = (s ! j \<and> \<not> (i * 2 \<le> j \<and> j < sz \<and> (j - i * 2) mod i = 0))"
    by (rule mark_multiples_nth [OF Cons.prems(1) i])
  also have "(i * 2 \<le> j \<and> j < sz \<and> (j - i * 2) mod i = 0) \<longleftrightarrow> (i * 2 \<le> j \<and> j mod i = 0)"
    using m assms(3) by auto
  finally show ?case by simp
qed

lemma sieve_prime:
  assumes "j < s * s"
  shows "(2 \<le> j \<and> list_all (\<lambda>i. \<not> (i * 2 \<le> j \<and> j mod i = 0)) [2..<s]) \<longleftrightarrow> prime_nat j"
proof
  assume a: "2 \<le> j \<and> list_all (\<lambda>i. \<not> (i * 2 \<le> j \<and> j mod i = 0)) [2..<s]"
  then have all: "\<And>i. 2 \<le> i \<Longrightarrow> i < s \<Longrightarrow> \<not> (i * 2 \<le> j \<and> j mod i = 0)"
    by (simp add: list_all_iff)
  show "prime_nat j"
  proof (rule prime_by_factors)
    show "1 < j" using a by simp
  next
    fix p assume p: "prime_nat p" "p dvd j"
    show "j < p * p"
    proof (rule ccontr)
      assume "\<not> j < p * p"
      then have pp: "p * p \<le> j" by simp
      have p2: "2 \<le> p" using p(1) by (simp add: prime_nat_def)
      have "p < s"
      proof (rule ccontr)
        assume "\<not> p < s"
        then have "s * s \<le> p * p" by (intro mult_mono) simp_all
        with pp assms show False by simp
      qed
      with p2 have "\<not> (p * 2 \<le> j \<and> j mod p = 0)" by (rule all)
      moreover have "p * 2 \<le> p * p" using p2 by (intro mult_le_mono) simp_all
      ultimately show False using pp p(2) by (simp add: mod_eq_0_iff_dvd)
    qed
  qed
next
  assume p: "prime_nat j"
  then have j: "1 < j" by (simp add: prime_nat_def)
  have "\<not> (i * 2 \<le> j \<and> j mod i = 0)" if "2 \<le> i" for i
  proof
    assume a: "i * 2 \<le> j \<and> j mod i = 0"
    then have "i dvd j" by (simp add: mod_eq_0_iff_dvd)
    with p have "i = 1 \<or> i = j" by (simp add: prime_nat_def)
    with that a j show False by auto
  qed
  then show "2 \<le> j \<and> list_all (\<lambda>i. \<not> (i * 2 \<le> j \<and> j mod i = 0)) [2..<s]"
    using j by (simp add: list_all_iff)
qed

lemma sieve0_nth:
  "j < sz \<Longrightarrow> ([False, False] @ drop 2 (replicate sz True)) ! j = (2 \<le> j)"
proof (cases "j < 2")
  case True
  then have "j = 0 \<or> j = 1" by auto
  then show ?thesis by auto
next
  case False
  assume "j < sz"
  with False show ?thesis by (simp add: nth_append)
qed

lemma prime_sieve_filter:
  "prime_sieve sz = map int (filter (\<lambda>j. 2 \<le> j
      \<and> list_all (\<lambda>i. \<not> (i * 2 \<le> j \<and> j mod i = 0)) [2..<isqrt sz + 1]) [0..<sz])"
proof -
  define sieve0 where "sieve0 = [False, False] @ drop 2 (replicate sz True)"
  define sieve where
    "sieve = fold (\<lambda>i s. mark_multiples s (i * 2) i sz) [2..<isqrt sz + 1] sieve0"
  have nth: "sieve ! j = (2 \<le> j
      \<and> list_all (\<lambda>i. \<not> (i * 2 \<le> j \<and> j mod i = 0)) [2..<isqrt sz + 1])"
    if "j \<in> set [0..<sz]" for j
  proof -
    from that have j: "j < sz" by simp
    then have len: "j < length sieve0" by (simp add: sieve0_def)
    have pos: "list_all (\<lambda>i. 0 < i) [2..<isqrt sz + 1]"
      unfolding list_all_iff set_upt by auto
    have "sieve ! j = (sieve0 ! j
        \<and> list_all (\<lambda>i. \<not> (i * 2 \<le> j \<and> j mod i = 0)) [2..<isqrt sz + 1])"
      unfolding sieve_def by (rule fold_mark_multiples_nth [OF len pos j])
    then show ?thesis using sieve0_nth [OF j] by (simp only: sieve0_def)
  qed
  have "prime_sieve sz = map int (filter (\<lambda>i. sieve ! i) [0..<sz])"
    unfolding prime_sieve_def Let_def sieve_def sieve0_def ..
  also have "filter (\<lambda>i. sieve ! i) [0..<sz] = filter (\<lambda>j. 2 \<le> j
      \<and> list_all (\<lambda>i. \<not> (i * 2 \<le> j \<and> j mod i = 0)) [2..<isqrt sz + 1]) [0..<sz]"
    by (rule filter_cong [OF refl nth])
  finally show ?thesis .
qed

lemma set_map_filter_upt: "set (map f (filter P [0..<n])) = f ` {j. j < n \<and> P j}"
  by auto

lemma FIRST_FEW_PRIMES_set: "set FIRST_FEW_PRIMES = int ` {p. prime_nat p \<and> p < 1000}"
proof -
  have r: "isqrt 1000 + 1 = 32" by (simp add: isqrt_1000)
  have "set FIRST_FEW_PRIMES = int ` {j. j < 1000 \<and> (2 \<le> j
      \<and> list_all (\<lambda>i. \<not> (i * 2 \<le> j \<and> j mod i = 0)) [2..<32])}"
    unfolding FIRST_FEW_PRIMES_def prime_sieve_filter r by (rule set_map_filter_upt)
  also have "{j. j < 1000 \<and> (2 \<le> j
      \<and> list_all (\<lambda>i. \<not> (i * 2 \<le> j \<and> j mod i = 0)) [2..<32])} = {p. prime_nat p \<and> p < 1000}"
  proof -
    have "j < 1000 \<and> (2 \<le> j
        \<and> list_all (\<lambda>i. \<not> (i * 2 \<le> j \<and> j mod i = 0)) [2..<32])
      \<longleftrightarrow> prime_nat j \<and> j < 1000" for j :: nat
    proof (cases "j < 1000")
      case True
      then have "j < 32 * 32" by simp
      from sieve_prime [OF this] True show ?thesis by (simp only: simp_thms)
    qed simp
    then show ?thesis by (simp only:)
  qed
  finally show ?thesis .
qed


section \<open>Miller-Rabin never rejects a prime; the examples of is_prime\<close>

lemma rabin_miller_factor_even:
  "d mod 2 = 0 \<Longrightarrow> rabin_miller_factor d r = rabin_miller_factor (d div 2) (r + 1)"
  by (subst rabin_miller_factor.simps) simp

lemma rabin_miller_factor_odd:
  "d mod 2 \<noteq> 0 \<Longrightarrow> rabin_miller_factor d r = Some (d, r)"
  by (subst rabin_miller_factor.simps) simp

lemma rabin_miller_factor_pos:
  "0 < d \<Longrightarrow> \<exists>d' t. rabin_miller_factor d r = Some (d', r + int t)
                    \<and> odd d' \<and> 0 < d' \<and> d = d' * 2 ^ t"
proof (induction "nat d" arbitrary: d r rule: less_induct)
  case less
  show ?case
  proof (cases "d mod 2 = 0")
    case False
    then have "rabin_miller_factor d r = Some (d, r + int 0) \<and> odd d \<and> 0 < d \<and> d = d * 2 ^ 0"
      using less.prems by (simp add: rabin_miller_factor_odd odd_iff_mod_2_eq_one)
    then show ?thesis by blast
  next
    case True
    then have d2: "d = 2 * (d div 2)" by presburger
    have pos: "0 < d div 2" using less.prems True by presburger
    have "nat (d div 2) < nat d" using less.prems by simp
    from less.hyps [OF this pos, of "r + 1"]
    obtain d' t where rec: "rabin_miller_factor (d div 2) (r + 1) = Some (d', r + 1 + int t)"
      and d': "odd d'" "0 < d'" and eq: "d div 2 = d' * 2 ^ t"
      by blast
    have "d = d' * 2 ^ Suc t" using d2 eq by simp
    moreover have "rabin_miller_factor d r = Some (d', r + int (Suc t))"
      using rec by (simp add: rabin_miller_factor_even [OF True] add.assoc add.commute)
    ultimately show ?thesis using d' by blast
  qed
qed

lemma rabin_miller_witness_exit:
  "rabin_miller_witness n r (n - 1) i = Some True"
  by (subst rabin_miller_witness.simps) simp

lemma rabin_miller_witness_square:
  "x \<noteq> n - 1 \<Longrightarrow> i \<noteq> r - 1 \<Longrightarrow>
     rabin_miller_witness n r x i = rabin_miller_witness n r (x\<^sup>2 mod n) (i + 1)"
  by (subst rabin_miller_witness.simps) simp

lemma rabin_miller_witness_found:
  assumes "1 < n"
  shows "0 \<le> x \<Longrightarrow> x < n \<Longrightarrow> x ^ (2 ^ t) mod n = n - 1 \<Longrightarrow> i + int t < r
         \<Longrightarrow> rabin_miller_witness n r x i = Some True"
proof (induction t arbitrary: x i)
  case 0
  then have "x = n - 1" by simp
  then show ?case by (simp add: rabin_miller_witness_exit)
next
  case (Suc t)
  show ?case
  proof (cases "x = n - 1")
    case True
    then show ?thesis by (simp add: rabin_miller_witness_exit)
  next
    case False
    have ne: "i \<noteq> r - 1" using Suc.prems(4) by simp
    have sq: "(x\<^sup>2 mod n) ^ (2 ^ t) mod n = n - 1"
    proof -
      have "(x\<^sup>2 mod n) ^ (2 ^ t) mod n = (x\<^sup>2) ^ (2 ^ t) mod n" by (rule power_mod)
      also have "(x\<^sup>2) ^ (2 ^ t) = x ^ (2 ^ Suc t)" by (simp add: power_mult [symmetric])
      finally show ?thesis using Suc.prems(3) by simp
    qed
    have "rabin_miller_witness n r (x\<^sup>2 mod n) (i + 1) = Some True"
    proof (rule Suc.IH [OF _ _ sq])
      show "0 \<le> x\<^sup>2 mod n" using assms by simp
      show "x\<^sup>2 mod n < n" using assms by simp
      show "i + 1 + int t < r" using Suc.prems(4) by simp
    qed
    then show ?thesis by (simp add: rabin_miller_witness_square [OF False ne])
  qed
qed

lemma miller_rabin_prime_nat:
  assumes "prime_nat p"
  shows "a ^ (d * 2 ^ r) mod p = 1
         \<Longrightarrow> a ^ d mod p = 1 \<or> (\<exists>t<r. a ^ (d * 2 ^ t) mod p = p - 1)"
proof (induction r)
  case 0
  then show ?case by simp
next
  case (Suc r)
  define y where "y = a ^ (d * 2 ^ r)"
  have "d * 2 ^ Suc r = d * 2 ^ r + d * 2 ^ r" by simp
  then have "y * y = a ^ (d * 2 ^ Suc r)"
    by (simp only: y_def power_add)
  with Suc.prems have "y * y mod p = 1" by simp
  from prime_sqrt_one [OF assms this] show ?case
  proof
    assume "y mod p = 1"
    with Suc.IH have "a ^ d mod p = 1 \<or> (\<exists>t<r. a ^ (d * 2 ^ t) mod p = p - 1)"
      by (simp add: y_def)
    then show ?thesis using less_Suc_eq by auto
  next
    assume "y mod p = p - 1"
    then have "\<exists>t<Suc r. a ^ (d * 2 ^ t) mod p = p - 1"
      unfolding y_def by blast
    then show ?thesis ..
  qed
qed


lemma rabin_miller_round_prime:
  assumes p: "prime_nat (nat n)" and n: "5 \<le> n"
    and fac: "n - 1 = d * 2 ^ t" and d: "0 < d"
    and a: "2 \<le> a" "a < n - 1" and x: "a ^ nat d mod n \<noteq> 1"
  shows "rabin_miller_witness n (int t) (a ^ nat d mod n) 0 = Some True"
proof -
  define p' where "p' = nat n"
  define a' where "a' = nat a"
  define d' where "d' = nat d"
  have ints: "int p' = n" "int a' = a" "int d' = d"
    using n a d by (simp_all add: p'_def a'_def d'_def)
  have p1: "1 < p'" using n by (simp add: p'_def)
  have ndvd: "\<not> p' dvd a'"
  proof
    assume "p' dvd a'"
    then have "p' \<le> a'" using a by (intro dvd_imp_le) (simp_all add: a'_def)
    then show False using a n by (simp add: p'_def a'_def)
  qed
  have "int (p' - 1) = int (d' * 2 ^ t)"
    using fac p1 by (simp add: ints)
  then have fac': "p' - 1 = d' * 2 ^ t" by (simp only: of_nat_eq_iff)
  have "a' ^ (p' - 1) mod p' = 1"
    by (rule fermat_little [OF p [folded p'_def] ndvd])
  then have "a' ^ (d' * 2 ^ t) mod p' = 1" by (simp only: fac')
  from miller_rabin_prime_nat [OF p [folded p'_def] this]
  have "a' ^ d' mod p' = 1 \<or> (\<exists>s<t. a' ^ (d' * 2 ^ s) mod p' = p' - 1)" .
  moreover have pw: "int (a' ^ k mod p') = a ^ k mod n" for k
    by (simp add: zmod_int ints)
  have "a' ^ d' mod p' \<noteq> 1"
  proof
    assume "a' ^ d' mod p' = 1"
    then have "int (a' ^ d' mod p') = 1" by simp
    then have "a ^ d' mod n = 1" by (simp only: pw)
    with x show False by (simp add: d'_def)
  qed
  ultimately obtain s where s: "s < t" "a' ^ (d' * 2 ^ s) mod p' = p' - 1" by blast
  have "a ^ (d' * 2 ^ s) mod n = int (p' - 1)"
    using s(2) pw [of "d' * 2 ^ s"] by simp
  also have "int (p' - 1) = n - 1" using p1 by (simp add: ints)
  finally have "a ^ (d' * 2 ^ s) mod n = n - 1" .
  moreover have "(a ^ d' mod n) ^ (2 ^ s) mod n = a ^ (d' * 2 ^ s) mod n"
    by (simp add: power_mod power_mult)
  ultimately have tgt: "(a ^ nat d mod n) ^ (2 ^ s) mod n = n - 1"
    by (simp add: d'_def)
  show ?thesis
  proof (rule rabin_miller_witness_found [OF _ _ _ tgt])
    show "1 < n" using n by simp
    show "0 \<le> a ^ nat d mod n" using n by simp
    show "a ^ nat d mod n < n" using n by simp
    show "0 + int s < int t" using s(1) by simp
  qed
qed

lemma rabin_miller_rounds_prime:
  assumes p: "prime_nat (nat n)" and n: "5 \<le> n"
    and fac: "n - 1 = d * 2 ^ t" and d: "0 < d"
  shows "rabin_miller_rounds k n d (int t) rs = Some (Inr (True, (stl ^^ k) rs))"
proof (induction k arbitrary: rs)
  case 0
  show ?case by simp
next
  case (Suc k)
  define a where "a = 2 + shd rs mod (n - 1 - 2)"
  have rr: "randrange 2 (n - 1) rs = Inr (a, stl rs)"
    using n by (simp add: randrange_def a_def)
  have "0 < n - 1 - 2" using n by simp
  then have "0 \<le> shd rs mod (n - 1 - 2)" "shd rs mod (n - 1 - 2) < n - 1 - 2"
    by (rule pos_mod_sign, rule pos_mod_bound)
  then have a: "2 \<le> a" "a < n - 1"
    unfolding a_def by linarith+
  have pw: "py_pow a d n = Inr (a ^ nat d mod n)"
    using n d by (simp add: py_pow_def)
  have rest: "rabin_miller_rounds k n d (int t) (stl rs) = Some (Inr (True, (stl ^^ Suc k) rs))"
    using Suc [of "stl rs"] by (simp add: funpow_swap1)
  show ?case
  proof (cases "a ^ nat d mod n = 1")
    case True
    then show ?thesis by (simp add: rr pw rest del: funpow.simps)
  next
    case False
    have "rabin_miller_witness n (int t) (a ^ nat d mod n) 0 = Some True"
      by (rule rabin_miller_round_prime [OF p n fac d a False])
    then show ?thesis using False by (simp add: rr pw rest del: funpow.simps)
  qed
qed

lemma rabin_miller_prime_stream:
  assumes "prime_nat (nat n)" "5 \<le> n"
  shows "rabin_miller n k rs = Some (Inr (True, (stl ^^ nat k) rs))"
proof -
  have "0 < n - 1" using assms(2) by simp
  from rabin_miller_factor_pos [OF this, of 0]
  obtain d t where f: "rabin_miller_factor (n - 1) 0 = Some (d, 0 + int t)"
    and d: "0 < d" and fac: "n - 1 = d * 2 ^ t"
    by blast
  have "rabin_miller_rounds (nat k) n d (int t) rs = Some (Inr (True, (stl ^^ nat k) rs))"
    by (rule rabin_miller_rounds_prime [OF assms fac d])
  then show ?thesis using f by (simp add: rabin_miller_def)
qed

lemma rabin_miller_prime:
  assumes "prime_nat (nat n)" "5 \<le> n"
  shows "\<exists>rs'. rabin_miller n k rs = Some (Inr (True, rs'))"
  using rabin_miller_prime_stream [OF assms] by blast

text \<open>
  Claim C9. For every prime \<open>n \<ge> 5\<close> (such a prime is odd), every round count \<open>k\<close> and every
  sequence of random draws (each base is drawn in \<open>[2, n - 2]\<close>), \<^verbatim>\<open>rabin_miller(n, k)\<close>
  returns \<^verbatim>\<open>True\<close>: the test never rejects a prime.
\<close>

theorem rabin_miller_accepts_primes:
  "prime_nat (nat n) \<Longrightarrow> 5 \<le> n \<Longrightarrow> \<exists>rs'. rabin_miller n k rs = Some (Inr (True, rs'))"
  by (rule rabin_miller_prime)

theorem rabin_miller_accepts_primes_witness:
  "prime_nat (nat 13) \<and> (5::int) \<le> 13
   \<and> (\<exists>rs'. rabin_miller 13 5 (sconst 4) = Some (Inr (True, rs')))"
proof -
  have "prime_nat 13"
    by (rule prime_by_trial_division) (simp_all add: trial_division.simps)
  then have p: "prime_nat (nat 13)" by simp
  show ?thesis
    using p rabin_miller_accepts_primes [OF p, of 5 "sconst 4"] by simp
qed

lemma FIRST_FEW_PRIMES_mem:
  "n \<in> set FIRST_FEW_PRIMES \<longleftrightarrow> 0 \<le> n \<and> n < 1000 \<and> prime_nat (nat n)"
proof
  assume "n \<in> set FIRST_FEW_PRIMES"
  then obtain p where "n = int p" "prime_nat p" "p < 1000"
    unfolding FIRST_FEW_PRIMES_set by blast
  then show "0 \<le> n \<and> n < 1000 \<and> prime_nat (nat n)" by simp
next
  assume a: "0 \<le> n \<and> n < 1000 \<and> prime_nat (nat n)"
  then have "n = int (nat n)" "nat n < 1000" by auto
  with a show "n \<in> set FIRST_FEW_PRIMES"
    unfolding FIRST_FEW_PRIMES_set by blast
qed

lemma no_small_factor_prime:
  assumes "prime_nat (nat n)" "1000 \<le> n"
  shows "\<not> list_ex (\<lambda>prime. n mod prime = 0) FIRST_FEW_PRIMES"
proof
  assume "list_ex (\<lambda>prime. n mod prime = 0) FIRST_FEW_PRIMES"
  then obtain q where q: "q \<in> set FIRST_FEW_PRIMES" "n mod q = 0"
    by (auto simp: list_ex_iff)
  then have q': "0 \<le> q" "q < 1000" "prime_nat (nat q)"
    by (simp_all add: FIRST_FEW_PRIMES_mem)
  from q(2) have "q dvd n" by (simp add: mod_eq_0_iff_dvd)
  then have "nat q dvd nat n" using q'(1) assms(2) by (simp add: nat_dvd_iff)
  with assms(1) have "nat q = 1 \<or> nat q = nat n" by (simp add: prime_nat_def)
  with q' assms(2) show False by (auto simp: prime_nat_def)
qed

lemma is_prime_large_prime_stream:
  assumes "prime_nat (nat n)" "1000 \<le> n"
  shows "is_prime n rs = Some (Inr (True, stl (stl (stl (stl (stl rs))))))"
proof -
  have "n \<notin> set FIRST_FEW_PRIMES" using assms(2) by (simp add: FIRST_FEW_PRIMES_mem)
  moreover have "rabin_miller n 5 rs = Some (Inr (True, (stl ^^ nat 5) rs))"
    using assms by (intro rabin_miller_prime_stream) simp_all
  moreover have "(stl ^^ nat 5) rs = stl (stl (stl (stl (stl rs))))"
    by (simp add: eval_nat_numeral)
  ultimately show ?thesis
    using assms(2) no_small_factor_prime [OF assms] by (simp add: is_prime_def)
qed

lemma is_prime_large_prime:
  assumes "prime_nat (nat n)" "1000 \<le> n"
  shows "\<exists>rs'. is_prime n rs = Some (Inr (True, rs'))"
  using is_prime_large_prime_stream [OF assms] by blast

lemma is_prime_small_prime:
  "prime_nat (nat n) \<Longrightarrow> 0 \<le> n \<Longrightarrow> n < 1000 \<Longrightarrow> is_prime n rs = Some (Inr (True, rs))"
  by (auto simp: is_prime_def FIRST_FEW_PRIMES_mem prime_nat_def)

text \<open>
  Claim C5. \<^verbatim>\<open>is_prime(109182490673)\<close> returns \<^verbatim>\<open>True\<close> for every sequence of random
  Miller-Rabin bases; \<^verbatim>\<open>is_prime(4)\<close> and \<^verbatim>\<open>is_prime(1)\<close> return \<^verbatim>\<open>False\<close> and
  \<^verbatim>\<open>is_prime(17)\<close> returns \<^verbatim>\<open>True\<close>, the last three without drawing any random number.
\<close>

theorem is_prime_examples:
  "(\<exists>rs'. is_prime 109182490673 rs = Some (Inr (True, rs')))
   \<and> is_prime 4 rs = Some (Inr (False, rs))
   \<and> is_prime 1 rs = Some (Inr (False, rs))
   \<and> is_prime 17 rs = Some (Inr (True, rs))"
proof -
  have "prime_nat (nat 109182490673)" using prime_109182490673 by simp
  then have big: "\<exists>rs'. is_prime 109182490673 rs = Some (Inr (True, rs'))"
    by (rule is_prime_large_prime) simp
  have p2: "prime_nat (nat 2)"
    using prime_by_trial_division [of 2] by (simp add: trial_division.simps)
  have two: "(2::int) \<in> set FIRST_FEW_PRIMES"
    using p2 by (simp add: FIRST_FEW_PRIMES_mem)
  have "\<not> prime_nat (nat 4)"
  proof
    assume "prime_nat (nat 4)"
    then have "prime_nat 4" by simp
    then have "\<forall>m::nat. m dvd 4 \<longrightarrow> m = 1 \<or> m = 4" by (simp add: prime_nat_def)
    then have "(2::nat) dvd 4 \<longrightarrow> (2::nat) = 1 \<or> (2::nat) = 4" by (rule spec)
    then show False by simp
  qed
  then have "(4::int) \<notin> set FIRST_FEW_PRIMES" by (simp add: FIRST_FEW_PRIMES_mem)
  moreover have "list_ex (\<lambda>prime. (4::int) mod prime = 0) FIRST_FEW_PRIMES"
    unfolding list_ex_iff using two by (intro bexI [of _ 2]) simp_all
  ultimately have four: "is_prime 4 rs = Some (Inr (False, rs))"
    by (simp add: is_prime_def)
  have one: "is_prime 1 rs = Some (Inr (False, rs))"
    by (simp add: is_prime_def)
  have "prime_nat 17"
    by (rule prime_by_trial_division) (simp_all add: trial_division.simps)
  then have "prime_nat (nat 17)" by simp
  then have seventeen: "is_prime 17 rs = Some (Inr (True, rs))"
    by (rule is_prime_small_prime) simp_all
  from big four one seventeen show ?thesis by blast
qed


section \<open>Key generation: the default exponent\<close>

lemma prime_524309: "prime_nat 524309"
  by (rule prime_by_trial_division) (simp_all add: trial_division.simps)

lemma prime_917519: "prime_nat 917519"
  by (rule prime_by_trial_division) (simp_all add: trial_division.simps)

lemma find_random_prime_hit:
  assumes "start < stop"
    "is_prime (start + shd rs mod (stop - start)) (stl rs) = Some (Inr (True, rs'))"
  shows "find_random_prime start stop rs = Some (Inr (start + shd rs mod (stop - start), rs'))"
  using assms by (subst find_random_prime.simps) (simp add: randrange_def)

lemma key_primes_again:
  assumes "get_key_prime key_size rs = Some (Inr (p', rs1))"
    "get_key_prime key_size rs1 = Some (Inr (q', rs2))"
  shows "key_primes p p key_size rs = key_primes p' q' key_size rs2"
  using assms by (subst key_primes.simps) simp

lemma key_primes_done: "p \<noteq> q \<Longrightarrow> key_primes p q key_size rs = Some (Inr ((p, q), rs))"
  by (subst key_primes.simps) simp

lemma get_key_prime_20:
  assumes "prime_nat (nat (524288 + shd rs mod 524288))"
  shows "get_key_prime 20 rs
         = Some (Inr (524288 + shd rs mod 524288, stl (stl (stl (stl (stl (stl rs)))))))"
proof -
  have "(1000::int) \<le> 524288 + shd rs mod 524288"
    using pos_mod_sign [of 524288 "shd rs"] by simp
  from is_prime_large_prime_stream [OF assms this, of "stl rs"]
  have "find_random_prime 524288 1048576 rs
        = Some (Inr (524288 + shd rs mod (1048576 - 524288), stl (stl (stl (stl (stl (stl rs)))))))"
    by (intro find_random_prime_hit) simp_all
  then show ?thesis by (simp add: get_key_prime_def)
qed


text \<open>
  Claim C3. For every key size and every outcome of the random draws,
  \<^verbatim>\<open>generate_key_pair(k)\<close> should yield \<open>p \<noteq> q\<close>, \<open>n = p * q\<close>,
  \<open>gcd(e, (p - 1) * (q - 1)) = 1\<close> and \<open>(e * d) mod ((p - 1) * (q - 1)) = 1\<close>. The code breaks
  the last two. With the default exponent, \<open>e = 65537\<close> is never tested against
  \<open>(p - 1) * (q - 1)\<close>, although the comment above the branch reads ``create e that is coprime
  to (p-1)*(q-1)'' and the other branch, \<^verbatim>\<open>get_key_coprime\<close>, tests it with \<^verbatim>\<open>gcd\<close>. When the
  draws of \<^verbatim>\<open>generate_key_pair(20)\<close> are the primes \<open>p = 917519 = 14 * 65537 + 1\<close> and
  \<open>q = 524309\<close> (lemmas \<open>prime_917519\<close> and \<open>prime_524309\<close>; the Miller-Rabin bases do
  not matter, both being prime), the key pair is
  returned with \<open>gcd(e, (p - 1) * (q - 1)) = 65537\<close> and the private exponent \<open>d = 0\<close>.
\<close>

theorem generate_key_pair_exponent_not_coprime:
  "key_primes 0 0 20 (393231 ## 0 ## 0 ## 0 ## 0 ## 0 ## 21 ## sconst 0)
       = Some (Inr ((917519, 524309), sconst 0))
   \<and> generate_key_pair 20 True (393231 ## 0 ## 0 ## 0 ## 0 ## 0 ## 21 ## sconst 0)
       = Some (Inr (((481063469371, 65537), (481063469371, 0)), sconst 0))
   \<and> (481063469371::int) = 917519 * 524309
   \<and> gcd (65537::int) ((917519 - 1) * (524309 - 1)) = 65537
   \<and> (65537 * 0) mod ((917519 - 1) * (524309 - 1)) = (0::int)"
proof -
  define RS :: "int stream" where "RS = 393231 ## 0 ## 0 ## 0 ## 0 ## 0 ## 21 ## sconst 0"
  have p: "get_key_prime 20 RS = Some (Inr (917519, 21 ## sconst 0))"
    using get_key_prime_20 [of RS] prime_917519 by (simp add: RS_def)
  have q: "get_key_prime 20 (21 ## sconst 0) = Some (Inr (524309, sconst 0))"
    using get_key_prime_20 [of "21 ## sconst 0"] prime_524309 by simp
  have kp: "key_primes 0 0 20 RS = Some (Inr ((917519, 524309), sconst 0))"
    by (simp add: key_primes_again [OF p q] key_primes_done)
  have inv: "multinv ((917519 - 1) * (524309 - 1)) 65537 = Some (Inr 0)"
    by (simp add: multinv_def multinv_loop_step multinv_loop_0)
  have gk: "generate_key_pair 20 True RS
            = Some (Inr (((481063469371, 65537), (481063469371, 0)), sconst 0))"
    using inv by (simp add: generate_key_pair_def kp Let_def DEFAULT_EXP_def)
  have g: "gcd (65537::int) ((917519 - 1) * (524309 - 1)) = 65537"
    by (simp add: gcd_red_int [of 65537])
  show ?thesis
    using kp gk g by (simp add: RS_def)
qed


section \<open>Encrypting and decrypting with a generated key\<close>

lemma fermat_power:
  assumes "prime_nat p"
  shows "m ^ (1 + s * (p - 1)) mod p = m mod p"
proof (cases "p dvd m")
  case True
  then have "p dvd m ^ (1 + s * (p - 1))" by simp
  with True show ?thesis by (simp add: mod_eq_0_iff_dvd)
next
  case False
  have one: "m ^ (p - 1) mod p = 1" by (rule fermat_little [OF assms False])
  have "m ^ (1 + s * (p - 1)) = m ^ ((p - 1) * s + 1)" by (simp add: mult.commute)
  also have "\<dots> mod p = m ^ 1 mod p" by (rule power_mod_one [OF one])
  finally show ?thesis by simp
qed

lemma rsa_nat:
  assumes p: "prime_nat p" and q: "prime_nat q" and pq: "p \<noteq> q"
    and k: "k mod ((p - 1) * (q - 1)) = 1" and x: "1 < (p - 1) * (q - 1)"
  shows "m ^ k mod (p * q) = m mod (p * q)"
proof -
  define t where "t = k div ((p - 1) * (q - 1))"
  have keq: "k = 1 + t * ((p - 1) * (q - 1))"
    using k mult_div_mod_eq [of "(p - 1) * (q - 1)" k] by (simp add: t_def mult.commute)
  have "k = 1 + (t * (q - 1)) * (p - 1)" by (subst keq) (simp add: mult_ac)
  then have mp: "m ^ k mod p = m mod p" using fermat_power [OF p] by simp
  have "k = 1 + (t * (p - 1)) * (q - 1)" by (subst keq) (simp add: mult_ac)
  then have mq: "m ^ k mod q = m mod q" using fermat_power [OF q] by simp
  have le: "m \<le> m ^ k"
  proof (cases "m = 0")
    case False
    have "m ^ 1 \<le> m ^ k" using False keq by (intro power_increasing) simp_all
    then show ?thesis by simp
  qed simp
  have dp: "p dvd m ^ k - m" using mp mod_eq_dvd_iff_nat [OF le, of p] by blast
  have dq: "q dvd m ^ k - m" using mq mod_eq_dvd_iff_nat [OF le, of q] by blast
  have "\<not> p dvd q" using p q pq by (auto simp: prime_nat_def)
  then have "coprime p q" by (rule prime_coprime [OF p])
  with dp dq have "p * q dvd m ^ k - m" by (simp add: divides_mult)
  then show ?thesis using mod_eq_dvd_iff_nat [OF le, of "p * q"] by blast
qed

lemma bit_length_power: "k < bit_length n \<Longrightarrow> 2 ^ k \<le> n"
proof (induction n arbitrary: k rule: bit_length.induct)
  case (1 n)
  show ?case
  proof (cases "n = 0")
    case True
    with "1.prems" show ?thesis by (simp add: bit_length.simps [of 0])
  next
    case False
    then have bl: "bit_length n = Suc (bit_length (n div 2))"
      by (simp add: bit_length.simps [of n])
    show ?thesis
    proof (cases k)
      case 0
      with False show ?thesis by simp
    next
      case (Suc k')
      with "1.prems" bl have "k' < bit_length (n div 2)" by simp
      from "1.IH" [OF False this] have "2 ^ k' \<le> n div 2" .
      then have "2 * 2 ^ k' \<le> 2 * (n div 2)" by simp
      also have "\<dots> \<le> n" by simp
      finally show ?thesis by (simp add: Suc)
    qed
  qed
qed

lemma key_primes_distinct_aux:
  assumes "key_primes p0 q0 key_size rs = Some y"
  shows "\<forall>p q rs'. y = Inr ((p, q), rs') \<longrightarrow> p \<noteq> q"
proof (rule key_primes.raw_induct
    [where P = "\<lambda>p0 q0 key_size rs y. \<forall>p q rs'. y = Inr ((p, q), rs') \<longrightarrow> p \<noteq> q", OF _ assms])
  fix f p0 q0 key_size rs y
  assume ih: "\<And>p0 q0 key_size rs y. f p0 q0 key_size rs = Some y
                \<Longrightarrow> \<forall>p q rs'. y = Inr ((p, q), rs') \<longrightarrow> p \<noteq> q"
    and body: "(if p0 = q0
      then case get_key_prime key_size rs of None \<Rightarrow> None
           | Some (Inl e) \<Rightarrow> Some (Inl e)
           | Some (Inr (p', rs1)) \<Rightarrow>
               case get_key_prime key_size rs1 of None \<Rightarrow> None
               | Some (Inl e) \<Rightarrow> Some (Inl e)
               | Some (Inr (q', rs2)) \<Rightarrow> f p' q' key_size rs2
      else Some (Inr ((p0, q0), rs))) = Some y"
  show "\<forall>p q rs'. y = Inr ((p, q), rs') \<longrightarrow> p \<noteq> q"
  proof (cases "p0 = q0")
    case False
    with body show ?thesis by auto
  next
    case True
    with body ih show ?thesis
      by (auto split: option.splits sum.splits prod.splits)
  qed
qed

lemma key_primes_distinct:
  "key_primes p0 q0 key_size rs = Some (Inr ((p, q), rs')) \<Longrightarrow> p \<noteq> q"
  using key_primes_distinct_aux by blast


lemma rsa_int:
  assumes p: "prime_nat (nat p)" and q: "prime_nat (nat q)" and pq: "p \<noteq> q"
    and ed: "(e * d) mod ((p - 1) * (q - 1)) = 1" and e: "0 \<le> e" and d: "0 \<le> d"
    and v: "0 \<le> v" "v < p * q"
  shows "(v ^ nat e mod (p * q)) ^ nat d mod (p * q) = v"
proof -
  define p' where "p' = nat p"
  define q' where "q' = nat q"
  define k where "k = nat e * nat d"
  define v' where "v' = nat v"
  have p1: "1 < p'" and q1: "1 < q'"
    using p q by (simp_all add: p'_def q'_def prime_nat_def)
  then have ints: "int p' = p" "int q' = q" "int v' = v"
    using v by (simp_all add: p'_def q'_def v'_def)
  have ne: "p' \<noteq> q'" using pq ints by auto
  have x1: "1 < (p' - 1) * (q' - 1)"
  proof -
    have "2 \<le> p' - 1 \<or> 2 \<le> q' - 1" using p1 q1 ne by arith
    moreover have "1 \<le> p' - 1" "1 \<le> q' - 1" using p1 q1 by simp_all
    ultimately show ?thesis
      by (metis One_nat_def Suc_1 Suc_le_lessD le_trans mult.commute mult_le_mono2 nat_mult_1_right)
  qed
  have xint: "int ((p' - 1) * (q' - 1)) = (p - 1) * (q - 1)"
    using p1 q1 by (simp add: ints of_nat_diff)
  have ik: "int k = e * d" using e d by (simp add: k_def)
  have "int (k mod ((p' - 1) * (q' - 1))) = int k mod int ((p' - 1) * (q' - 1))"
    by (rule zmod_int)
  then have "int (k mod ((p' - 1) * (q' - 1))) = (e * d) mod ((p - 1) * (q - 1))"
    by (simp only: ik xint)
  then have km: "k mod ((p' - 1) * (q' - 1)) = 1" using ed by simp
  have "v' ^ k mod (p' * q') = v' mod (p' * q')"
    by (rule rsa_nat [OF p [folded p'_def] q [folded q'_def] ne km x1])
  then have "int (v' ^ k mod (p' * q')) = int (v' mod (p' * q'))" by simp
  then have "v ^ k mod (p * q) = v mod (p * q)"
    by (simp add: zmod_int ints)
  moreover have "(v ^ nat e mod (p * q)) ^ nat d mod (p * q) = v ^ k mod (p * q)"
    by (simp add: power_mod power_mult k_def)
  ultimately show ?thesis using v by simp
qed

lemma generate_key_pair_default:
  assumes "generate_key_pair key_size True rs = Some (Inr ((pub, priv), rs'))"
    and "key_primes 0 0 key_size rs = Some (Inr ((p, q), rs1))"
  shows "\<exists>d. pub = (p * q, 65537) \<and> priv = (p * q, d)
             \<and> multinv ((p - 1) * (q - 1)) 65537 = Some (Inr d)"
  using assms
  by (auto simp: generate_key_pair_def Let_def DEFAULT_EXP_def split: option.splits sum.splits)


lemma int2text_of_text2int_blocks:
  assumes "list_all (\<lambda>c. c < 128) m" "m = [] \<or> last m \<noteq> 0" "0 < n"
  shows "text2int m (int n) = Inr (map le_val (chunks n m))"
    and "int2text (map le_val (chunks n m)) (int n) = Inr m"
proof -
  have id: "rstrip_nul m = m" by (rule rstrip_nul_id [OF assms(2)])
  have "text2int m (int n) = Inr (map le_val (chunks n (rstrip_nul m)))"
    by (rule text2int_chunks [OF rstrip_nul_ascii [OF assms(1)] assms(3)])
  then show "text2int m (int n) = Inr (map le_val (chunks n m))"
    by (simp only: id)
  obtain k where "int2text_loop (map le_val (chunks n m)) (int n) []
                  = Inr ([] @ m @ replicate k 0)"
    using int2text_loop_chunks [OF assms(3) ascii_bytes [OF assms(1)], of "[]"] by blast
  then show "int2text (map le_val (chunks n m)) (int n) = Inr m"
    by (simp add: int2text_def rstrip_nul_padding id)
qed

text \<open>
  Claim C1, as amended. Let \<^verbatim>\<open>generate_key_pair(k)\<close> return the pair \<open>(pub, priv)\<close> built from
  the numbers \<open>p\<close> and \<open>q\<close> drawn by its loop. If \<open>p\<close> and \<open>q\<close> are prime and the public
  exponent is coprime to \<open>(p - 1) * (q - 1)\<close>, then for every ASCII message \<open>m\<close> that does not
  end in NUL and every block size of at least one with \<open>block_size * 8\<close> below the bit size of
  the modulus, \<^verbatim>\<open>decrypt(encrypt(m, pub, block_size), priv, block_size)\<close> returns \<open>m\<close>.
\<close>

theorem decrypt_encrypt_generated_key:
  assumes gk: "generate_key_pair key_size True rs = Some (Inr ((pub, priv), rs'))"
    and kp: "key_primes 0 0 key_size rs = Some (Inr ((p, q), rs1))"
    and pp: "prime_nat (nat p)" and pq: "prime_nat (nat q)"
    and cop: "gcd (snd pub) ((p - 1) * (q - 1)) = 1"
    and ascii: "list_all (\<lambda>c. c < 128) m" and nul: "m = [] \<or> last m \<noteq> 0"
    and bs: "1 \<le> block_size"
    and bits: "block_size * 8 < int (bit_length (nat (fst pub)))"
  shows "\<exists>c. encrypt m pub block_size = Inr c \<and> decrypt c priv block_size = Inr m"
proof -
  obtain d where pub: "pub = (p * q, 65537)" and priv: "priv = (p * q, d)"
    and inv: "multinv ((p - 1) * (q - 1)) 65537 = Some (Inr d)"
    using generate_key_pair_default [OF gk kp] by blast
  have ne: "p \<noteq> q" by (rule key_primes_distinct [OF kp])
  have p2: "2 \<le> p" and q2: "2 \<le> q"
    using pp pq by (auto simp: prime_nat_def)
  have x1: "1 < (p - 1) * (q - 1)"
  proof -
    have "3 \<le> p \<or> 3 \<le> q" using p2 q2 ne by linarith
    then show ?thesis
    proof
      assume "3 \<le> p"
      then have "2 * 1 \<le> (p - 1) * (q - 1)" using q2 by (intro mult_mono) simp_all
      then show ?thesis by simp
    next
      assume "3 \<le> q"
      then have "1 * 2 \<le> (p - 1) * (q - 1)" using p2 by (intro mult_mono) simp_all
      then show ?thesis by simp
    qed
  qed
  have cop': "gcd ((p - 1) * (q - 1)) 65537 = 1"
    using cop by (simp add: pub gcd.commute)
  from multinv_inverse [OF cop' x1] inv
  have d: "0 \<le> d" and ed: "(65537 * d) mod ((p - 1) * (q - 1)) = 1"
    by auto
  define n where "n = p * q"
  have npos: "0 < n" using p2 q2 by (simp add: n_def)
  define nb where "nb = nat block_size"
  have nb: "0 < nb" "int nb = block_size" using bs by (simp_all add: nb_def)
  define blocks where "blocks = map le_val (chunks nb m)"
  have enc: "text2int m block_size = Inr blocks"
    and dec: "int2text blocks block_size = Inr m"
    using int2text_of_text2int_blocks [OF ascii nul nb(1)]
    by (simp_all only: nb(2) blocks_def)
  have "8 * nb < bit_length (nat n)"
    using bits nb(2) by (simp add: pub n_def)
  then have "2 ^ (8 * nb) \<le> nat n" by (rule bit_length_power)
  then have "int (2 ^ (8 * nb)) \<le> n" using npos by linarith
  then have le: "(256::int) ^ nb \<le> n"
    by (simp add: power_mult)
  have "list_all (\<lambda>v. 0 \<le> v \<and> v < 256 ^ nb) blocks"
    unfolding blocks_def by (rule chunks_bounds [OF nb(1) ascii_bytes [OF ascii]])
  then have bnd: "\<And>v. v \<in> set blocks \<Longrightarrow> 0 \<le> v \<and> v < n"
    using le by (auto simp: list_all_iff)
  define c where "c = map (\<lambda>v. v ^ nat 65537 mod n) blocks"
  have e1: "encrypt m pub block_size = Inr c"
    using npos by (simp add: encrypt_def pub enc pow_blocks_ok c_def n_def [symmetric])
  have "map (\<lambda>w. w ^ nat d mod n) c = map (\<lambda>v. v) blocks"
    unfolding c_def map_map comp_def
  proof (rule map_cong [OF refl])
    fix v assume "v \<in> set blocks"
    then have "0 \<le> v" "v < p * q" using bnd by (simp_all add: n_def)
    from rsa_int [OF pp pq ne ed _ d this]
    show "(v ^ nat 65537 mod n) ^ nat d mod n = v" by (simp add: n_def)
  qed
  then have "pow_blocks c d n = Inr blocks"
    using npos d by (simp add: pow_blocks_ok)
  then have e2: "decrypt c priv block_size = Inr m"
    by (simp add: decrypt_def priv dec n_def [symmetric])
  from e1 e2 show ?thesis by blast
qed


lemma prime_17: "prime_nat 17"
  by (rule prime_by_trial_division) (simp_all add: trial_division.simps)

lemma prime_19: "prime_nat 19"
  by (rule prime_by_trial_division) (simp_all add: trial_division.simps)

lemma find_random_prime_small:
  assumes "start < stop" "prime_nat (nat (start + shd rs mod (stop - start)))"
    "0 \<le> start + shd rs mod (stop - start)" "start + shd rs mod (stop - start) < 1000"
  shows "find_random_prime start stop rs = Some (Inr (start + shd rs mod (stop - start), stl rs))"
  by (rule find_random_prime_hit [OF assms(1)]) (rule is_prime_small_prime [OF assms(2,3,4)])

lemma bit_length_323: "bit_length 323 = 9"
  by (simp add: bit_length.simps)

lemma key_5:
  "key_primes 0 0 5 (1 ## 3 ## sconst 0) = Some (Inr ((17, 19), sconst 0))"
proof -
  have p: "get_key_prime 5 (1 ## 3 ## sconst 0) = Some (Inr (17, 3 ## sconst 0))"
    using find_random_prime_small [of 16 32 "1 ## 3 ## sconst 0"] prime_17
    by (simp add: get_key_prime_def)
  have q: "get_key_prime 5 (3 ## sconst 0) = Some (Inr (19, sconst 0))"
    using find_random_prime_small [of 16 32 "3 ## sconst 0"] prime_19
    by (simp add: get_key_prime_def)
  show ?thesis by (simp add: key_primes_again [OF p q] key_primes_done)
qed


lemma py_pow_modpow:
  "py_pow b e m = (if m = 0 \<or> e < 0 then Inl ValueError else Inr (modpow b (nat e) m))"
  by (simp add: py_pow_def modpow_eq)

lemma rabin_miller_witness_last:
  "x = n - 1 \<Longrightarrow> rabin_miller_witness n r x i = Some True"
  by (simp add: rabin_miller_witness_exit)

theorem decrypt_encrypt_generated_key_witness:
  "generate_key_pair 5 True (1 ## 3 ## sconst 0)
     = Some (Inr (((323, 65537), (323, 161)), sconst 0))
   \<and> key_primes 0 0 5 (1 ## 3 ## sconst 0) = Some (Inr ((17, 19), sconst 0))
   \<and> prime_nat (nat 17) \<and> prime_nat (nat 19)
   \<and> gcd (65537::int) ((17 - 1) * (19 - 1)) = 1
   \<and> list_all (\<lambda>c. c < 128) [97::nat] \<and> last [97::nat] \<noteq> 0 \<and> (1::int) \<le> 1
   \<and> (1::int) * 8 < int (bit_length (nat 323))
   \<and> encrypt [97] (323, 65537) 1 = Inr [29]
   \<and> (\<exists>c. encrypt [97] (323, 65537) 1 = Inr c \<and> decrypt c (323, 161) 1 = Inr [97])"
proof -
  have inv: "multinv ((17 - 1) * (19 - 1)) 65537 = Some (Inr 161)"
    by (simp add: multinv_def multinv_loop_step multinv_loop_0)
  have gk: "generate_key_pair 5 True (1 ## 3 ## sconst 0)
            = Some (Inr (((323, 65537), (323, 161)), sconst 0))"
    using inv by (simp add: generate_key_pair_def key_5 Let_def DEFAULT_EXP_def)
  have p: "prime_nat (nat 17)" "prime_nat (nat 19)"
    using prime_17 prime_19 by simp_all
  have g: "gcd (snd ((323::int), (65537::int))) ((17 - 1) * (19 - 1)) = 1"
    by (simp add: gcd_red_int [of 65537] gcd_red_int [of 288] gcd_red_int [of 161]
        gcd_red_int [of 127] gcd_red_int [of 34] gcd_red_int [of 25] gcd_red_int [of 9]
        gcd_red_int [of 7] gcd_red_int [of 2])
  have bits: "(1::int) * 8 < int (bit_length (nat (fst ((323::int), (65537::int)))))"
    by (simp add: bit_length_323)
  have enc: "encrypt [97] (323, 65537) 1 = Inr [29]"
    by (simp add: encrypt_def text2int_def encode_ascii_def rstrip_nul_def block_val_def
        py_range.simps py_pow_modpow modpow.simps)
  have "\<exists>c. encrypt [97] (323, 65537) 1 = Inr c \<and> decrypt c (323, 161) 1 = Inr [97]"
    by (rule decrypt_encrypt_generated_key [OF gk key_5 p g _ _ _ bits]) simp_all
  with gk key_5 p g bits enc show ?thesis by (simp add: bit_length_323)
qed


lemma prime_1009: "prime_nat 1009"
  by (rule prime_by_trial_division) (simp_all add: trial_division.simps)

lemma prime_1013: "prime_nat 1013"
  by (rule prime_by_trial_division) (simp_all add: trial_division.simps)

lemma no_small_factor_1022117:
  "\<not> list_ex (\<lambda>prime. (1022117::int) mod prime = 0) FIRST_FEW_PRIMES"
proof
  assume "list_ex (\<lambda>prime. (1022117::int) mod prime = 0) FIRST_FEW_PRIMES"
  then obtain r where r: "r \<in> set FIRST_FEW_PRIMES" "(1022117::int) mod r = 0"
    by (auto simp: list_ex_iff)
  then have r': "0 \<le> r" "r < 1000" "prime_nat (nat r)"
    by (simp_all add: FIRST_FEW_PRIMES_mem)
  from r(2) have "r dvd 1022117" by (simp add: mod_eq_0_iff_dvd)
  then have "nat r dvd nat 1022117" using r'(1) by (simp add: nat_dvd_iff)
  then have "nat r dvd 1009 * 1013" by simp
  with prime_dvd_mult [OF r'(3)] have "nat r dvd 1009 \<or> nat r dvd 1013" by blast
  moreover have "nat r \<noteq> 1" using prime_nat_gt1 [OF r'(3)] by simp
  ultimately have "nat r = 1009 \<or> nat r = 1013"
    using prime_1009 prime_1013 unfolding prime_nat_def by blast
  with r'(2) show False by auto
qed

lemma rabin_miller_factor_1022116: "rabin_miller_factor 1022116 0 = Some (255529, 2)"
  by (simp add: rabin_miller_factor_even rabin_miller_factor_odd)

lemma liar_round:
  assumes "shd rs = 107421"
  shows "rabin_miller_rounds (Suc k) 1022117 255529 2 rs
         = rabin_miller_rounds k 1022117 255529 2 (stl rs)"
proof -
  have r: "randrange 2 (1022117 - 1) rs = Inr (107423, stl rs)"
    by (simp add: randrange_def assms)
  have pw: "py_pow 107423 255529 1022117 = Inr 107423"
    by (simp add: py_pow_modpow modpow.simps)
  have w: "rabin_miller_witness 1022117 2 107423 0 = Some True"
    by (simp add: rabin_miller_witness_square rabin_miller_witness_last)
  show ?thesis using r pw w by simp
qed


lemma is_prime_1022117:
  "is_prime 1022117 (107421 ## 107421 ## 107421 ## 107421 ## 107421 ## rs)
   = Some (Inr (True, rs))"
proof -
  have "rabin_miller 1022117 5 (107421 ## 107421 ## 107421 ## 107421 ## 107421 ## rs)
        = Some (Inr (True, rs))"
    by (simp add: rabin_miller_def rabin_miller_factor_1022116 eval_nat_numeral liar_round
        del: rabin_miller_rounds.simps(2))
  then show ?thesis
    using no_small_factor_1022117 by (simp add: is_prime_def FIRST_FEW_PRIMES_mem)
qed

lemma bit_length_535905142153: "bit_length 535905142153 = 39"
  by (simp add: bit_length.simps)

text \<open>
  The claim as stated ranges over every outcome of the random draws, and the primality
  test is probabilistic: \<open>1022117 = 1009 * 1013\<close> has no factor below 1000 and passes the five
  Miller-Rabin rounds when the base 107423 is drawn each time. \<^verbatim>\<open>generate_key_pair(20)\<close> then
  takes it for \<open>p\<close>, and with the prime \<open>q = 524309\<close> returns a key pair under which the
  message \<^verbatim>\<open>"a"\<close>, with block size 1, encrypts to 310258227880 and decrypts to the block
  44222318393, on which \<^verbatim>\<open>chr\<close> raises.
\<close>

theorem decrypt_encrypt_pseudoprime_counterexample:
  "generate_key_pair 20 True
     (497829 ## 107421 ## 107421 ## 107421 ## 107421 ## 107421 ## 21 ## sconst 0)
     = Some (Inr (((535905142153, 65537), (535905142153, 376147297)), sconst 0))
   \<and> list_all (\<lambda>c. c < 128) [97::nat] \<and> last [97::nat] \<noteq> 0
   \<and> (1::int) * 8 < int (bit_length (nat 535905142153))
   \<and> encrypt [97] (535905142153, 65537) 1 = Inr [310258227880]
   \<and> decrypt [310258227880] (535905142153, 376147297) 1 = Inl OverflowError"
proof -
  define RS :: "int stream" where
    "RS = 497829 ## 107421 ## 107421 ## 107421 ## 107421 ## 107421 ## 21 ## sconst 0"
  have "find_random_prime 524288 1048576 RS
        = Some (Inr (524288 + shd RS mod (1048576 - 524288), 21 ## sconst 0))"
    by (rule find_random_prime_hit) (simp_all add: RS_def is_prime_1022117)
  then have p: "get_key_prime 20 RS = Some (Inr (1022117, 21 ## sconst 0))"
    by (simp add: get_key_prime_def RS_def)
  have q: "get_key_prime 20 (21 ## sconst 0) = Some (Inr (524309, sconst 0))"
    using get_key_prime_20 [of "21 ## sconst 0"] prime_524309 by simp
  have kp: "key_primes 0 0 20 RS = Some (Inr ((1022117, 524309), sconst 0))"
    by (simp add: key_primes_again [OF p q] key_primes_done)
  have inv: "multinv ((1022117 - 1) * (524309 - 1)) 65537 = Some (Inr 376147297)"
    by (simp add: multinv_def multinv_loop_step multinv_loop_0)
  have gk: "generate_key_pair 20 True RS
            = Some (Inr (((535905142153, 65537), (535905142153, 376147297)), sconst 0))"
    using inv by (simp add: generate_key_pair_def kp Let_def DEFAULT_EXP_def)
  have enc: "encrypt [97] (535905142153, 65537) 1 = Inr [310258227880]"
    by (simp add: encrypt_def text2int_def encode_ascii_def rstrip_nul_def block_val_def
        py_range.simps py_pow_modpow modpow.simps)
  have dec: "decrypt [310258227880] (535905142153, 376147297) 1 = Inl OverflowError"
    by (simp add: decrypt_def py_pow_modpow modpow.simps int2text_def py_range.simps chr_def)
  show ?thesis
    using gk enc dec by (simp add: RS_def bit_length_535905142153)
qed


end
